theory Spec2Isabelle
  imports Main "HOL-Library.Multiset"
begin

section \<open>Module constants of \<^verbatim>\<open>easybuild/tools/multidiff.py\<close>\<close>

definition SEP_WIDTH :: nat where
  "SEP_WIDTH = 5"

text \<open>The escape character \<^verbatim>\<open>\033\<close> that starts every ANSI colour sequence.\<close>

definition ESC :: char where
  "ESC = CHR 0x1B"

definition PURPLE :: string where
  "PURPLE = ESC # ''[0;35m''"

definition GREEN_BACK :: string where
  "GREEN_BACK = ESC # ''[0;42m''"

definition RED_BACK :: string where
  "RED_BACK = ESC # ''[0;41m''"

definition END_COLOR :: string where
  "END_COLOR = ESC # ''[0m''"

definition HAT :: char where
  "HAT = CHR ''^''"

definition MINUS :: char where
  "MINUS = CHR ''-''"

definition PLUS :: char where
  "PLUS = CHR ''+''"

definition SPACE :: char where
  "SPACE = CHR '' ''"

definition QUESTIONMARK :: char where
  "QUESTIONMARK = CHR ''?''"

definition END_LONG_LINE :: string where
  "END_LONG_LINE = ''...''"

definition MAX_DIFF_GROUPS :: nat where
  "MAX_DIFF_GROUPS = 3"

section \<open>Python built-ins used by the module\<close>

text \<open>
  The exceptions the module can raise: an index or a key out of range, the domain error of
  \<^verbatim>\<open>math.log10\<close>, and the error raised by \<^verbatim>\<open>_log.error\<close> when the logger
  class installed by the rest of the framework raises on errors.
\<close>

datatype error = IndexError | KeyError | ValueError | LoggedError string

text \<open>\<^verbatim>\<open>line.startswith(c)\<close> for a one-character prefix.\<close>

fun startswith :: "string \<Rightarrow> char \<Rightarrow> bool" where
  "startswith [] c = False"
| "startswith (x # xs) c = (x = c)"

text \<open>\<^verbatim>\<open>str.rstrip()\<close>: the trailing whitespace characters are removed.\<close>

definition is_space :: "char \<Rightarrow> bool" where
  "is_space c = (c \<in> {CHR '' '', CHR 0x09, CHR 0x0A, CHR 0x0B, CHR 0x0C, CHR 0x0D})"

definition rstrip :: "string \<Rightarrow> string" where
  "rstrip s = rev (dropWhile is_space (rev s))"

text \<open>\<^verbatim>\<open>sep.join(xs)\<close>.\<close>

fun join :: "string \<Rightarrow> string list \<Rightarrow> string" where
  "join sep [] = []"
| "join sep [x] = x"
| "join sep (x # y # ys) = x @ sep @ join sep (y # ys)"

text \<open>\<^verbatim>\<open>'%s' % n\<close> and \<^verbatim>\<open>'%d' % n\<close> for an integer: its decimal numeral.\<close>

definition digit_char :: "nat \<Rightarrow> char" where
  "digit_char d = ''0123456789'' ! d"

fun str_nat :: "nat \<Rightarrow> string" where
  "str_nat n = (if n < 10 then [digit_char n] else str_nat (n div 10) @ [digit_char (n mod 10)])"

declare str_nat.simps [simp del]

definition str_int :: "int \<Rightarrow> string" where
  "str_int i = (if i < 0 then CHR ''-'' # str_nat (nat (- i)) else str_nat (nat i))"

text \<open>The exact integer logarithm to base 10 of a positive number: one less than its number of digits.\<close>

fun ilog10 :: "nat \<Rightarrow> nat" where
  "ilog10 n = (if n < 10 then 0 else Suc (ilog10 (n div 10)))"

declare ilog10.simps [simp del]

definition exact_log10 :: "int \<Rightarrow> int" where
  "exact_log10 n = int (ilog10 (nat n))"

text \<open>\<^verbatim>\<open>text[:n]\<close>: a negative \<open>n\<close> counts from the end of the text.\<close>

definition py_prefix :: "'a list \<Rightarrow> int \<Rightarrow> 'a list" where
  "py_prefix text n =
     (if 0 \<le> n then take (nat n) text else take (nat (int (length text) + n)) text)"

text \<open>\<^verbatim>\<open>xs.insert(i, x)\<close> for \<open>i \<ge> 0\<close>: past the end it appends.\<close>

definition list_insert :: "nat \<Rightarrow> 'a \<Rightarrow> 'a list \<Rightarrow> 'a list" where
  "list_insert i x xs = take i xs @ x # drop i xs"

text \<open>\<^verbatim>\<open>s.add(x)\<close> on a set held as a duplicate-free list.\<close>

definition set_add :: "'a \<Rightarrow> 'a list \<Rightarrow> 'a list" where
  "set_add x xs = (if x \<in> set xs then xs else xs @ [x])"

text \<open>\<^verbatim>\<open>os.path.basename\<close> (POSIX): what follows the last slash.\<close>

definition basename :: "string \<Rightarrow> string" where
  "basename p = rev (takeWhile (\<lambda>c. c \<noteq> CHR ''/'') (rev p))"

text \<open>Sequencing of computations that may raise.\<close>

definition bind_err :: "error + 'a \<Rightarrow> ('a \<Rightarrow> error + 'b) \<Rightarrow> error + 'b" where
  "bind_err m f = (case m of Inl e \<Rightarrow> Inl e | Inr x \<Rightarrow> f x)"


section \<open>What the module takes from outside\<close>

text \<open>
  Four things are decided outside the module: whether \<^verbatim>\<open>_log.error\<close> raises (the logger
  class is installed elsewhere in the framework) or only writes to the log, the order in
  which Python iterates over a set of strings, the width of the terminal
  (\<^verbatim>\<open>det_terminal_size\<close>), and the value of \<^verbatim>\<open>int(math.log10(n))\<close> for a positive \<open>n\<close>.
  The last is computed in floating point by the C library: it is the exact integer
  logarithm of every \<open>n\<close> up to 999999999999997; at 999999999999998 the float rounds up
  to 15, one more than the exact logarithm. The model takes the value as it comes.
\<close>

record env =
  log_error_raises :: bool
  set_order :: "string list \<Rightarrow> string list"
  term_width :: int
  trunc_log10 :: "int \<Rightarrow> int"

text \<open>\<^verbatim>\<open>int(math.log10(n))\<close>: a domain error unless \<open>n\<close> is positive.\<close>

definition int_log10 :: "env \<Rightarrow> int \<Rightarrow> error + int" where
  "int_log10 e n = (if n \<le> 0 then Inl ValueError else Inr (trunc_log10 e n))"

text \<open>An iteration order visits every element of the set exactly once.\<close>

definition order_ok :: "env \<Rightarrow> bool" where
  "order_ok e = (\<forall>xs. mset (set_order e xs) = mset xs)"


section \<open>The class \<^verbatim>\<open>MultiDiff\<close>\<close>

text \<open>
  \<^verbatim>\<open>diff_info\<close> maps a line number to a dictionary from the first character of a diff
  line to the list of (diff line, file name, squigly line) registered for it.
\<close>

type_synonym diff_tuple = "string \<times> string \<times> string"

type_synonym diff_dict = "(char \<times> diff_tuple list) list"

record MultiDiff =
  base_fn :: string
  base_lines :: "string list"
  files :: "string list"
  colored :: bool
  diff_info :: "int \<rightharpoonup> diff_dict"

definition init :: "string \<Rightarrow> string list \<Rightarrow> string list \<Rightarrow> bool \<Rightarrow> MultiDiff" where
  "init fn lines fs col =
     \<lparr>base_fn = fn, base_lines = lines, files = fs, colored = col, diff_info = Map.empty\<rparr>"

text \<open>\<^verbatim>\<open>d.setdefault(k, []).append(v)\<close> on a dictionary held as an association list.\<close>

fun setdefault_append :: "'k \<Rightarrow> 'v \<Rightarrow> ('k \<times> 'v list) list \<Rightarrow> ('k \<times> 'v list) list" where
  "setdefault_append k v [] = [(k, [v])]"
| "setdefault_append k v ((k', vs) # d) =
     (if k = k' then (k', vs @ [v]) # d else (k', vs) # setdefault_append k v d)"

text \<open>The last two statements of \<^verbatim>\<open>parse_line\<close>: the tuple is appended to its list.\<close>

definition register :: "int \<Rightarrow> char \<Rightarrow> diff_tuple \<Rightarrow> MultiDiff \<Rightarrow> MultiDiff" where
  "register line_no key t md =
     md\<lparr>diff_info := (diff_info md)(line_no \<mapsto>
          setdefault_append key t (case diff_info md line_no of None \<Rightarrow> [] | Some d \<Rightarrow> d))\<rparr>"

text \<open>
  \<^verbatim>\<open>diff_line[0]\<close> raises on the empty string. For a first character other than \<open>-\<close> and
  \<open>+\<close> the method calls \<^verbatim>\<open>_log.error\<close>: with a logger that raises, the call ends there;
  with one that only logs, the message goes to the log and the tuple is registered.
\<close>

definition parse_line ::
  "env \<Rightarrow> int \<Rightarrow> string \<Rightarrow> string \<Rightarrow> string \<Rightarrow> MultiDiff \<Rightarrow> error + MultiDiff" where
  "parse_line e line_no diff_line meta squigly_line md =
     (case diff_line of
        [] \<Rightarrow> Inl IndexError
      | key # _ \<Rightarrow>
          if key \<notin> {MINUS, PLUS} \<and> log_error_raises e
          then Inl (LoggedError (''diff line starts with unexpected character: '' @ diff_line))
          else Inr (register line_no key (diff_line, meta, squigly_line) md))"

definition color_line :: "bool \<Rightarrow> string \<Rightarrow> string \<Rightarrow> string" where
  "color_line col line color = (if col then color @ line @ END_COLOR else line)"


subsection \<open>\<^verbatim>\<open>merge_squigly\<close>\<close>

text \<open>
  The loop over \<^verbatim>\<open>enumerate(other)\<close>; \<^verbatim>\<open>base[i]\<close> raises past the end of the base.
\<close>

fun merge_loop :: "nat \<Rightarrow> string \<Rightarrow> string \<Rightarrow> error + string" where
  "merge_loop i [] base = Inr base"
| "merge_loop i (c # other) base =
     (if length base \<le> i then Inl IndexError
      else merge_loop (Suc i) other
             (if base ! i \<in> {HAT, SPACE} \<and> base ! i \<noteq> c then base[i := c] else base))"

definition merge_squigly :: "string \<Rightarrow> string \<Rightarrow> error + string" where
  "merge_squigly squigly1 squigly2 =
     (if length squigly1 > length squigly2
      then merge_loop 0 squigly2 squigly1
      else merge_loop 0 squigly1 squigly2)"


subsection \<open>\<^verbatim>\<open>colorize\<close>\<close>

definition color_map :: "string \<Rightarrow> char \<Rightarrow> string option" where
  "color_map line c =
     (if c = HAT then Some (if startswith line PLUS then GREEN_BACK else RED_BACK)
      else if c = MINUS then Some RED_BACK
      else if c = PLUS then Some GREEN_BACK
      else None)"

text \<open>
  The loop over \<^verbatim>\<open>enumerate(squigly)\<close>; its state is the list \<^verbatim>\<open>chars\<close>, the last marker
  \<^verbatim>\<open>flag\<close> and the number \<^verbatim>\<open>offset\<close> of escapes inserted so far.
\<close>

fun colorize_loop ::
  "string \<Rightarrow> nat \<Rightarrow> string \<Rightarrow> string list \<times> char \<times> nat \<Rightarrow> string list \<times> char \<times> nat" where
  "colorize_loop line i [] st = st"
| "colorize_loop line i (sc # rest) (chars, flag, offset) =
     colorize_loop line (Suc i) rest
       (if sc \<noteq> flag then
          (let chars1 = list_insert (i + offset) END_COLOR chars;
               offset1 = offset + 1
           in case (if sc \<in> {HAT, MINUS, PLUS} then color_map line sc else None) of
                Some col \<Rightarrow> (list_insert (i + offset1) col chars1, sc, offset1 + 1)
              | None \<Rightarrow> (chars1, sc, offset1))
        else (chars, flag, offset))"

definition colorize :: "bool \<Rightarrow> string \<Rightarrow> string \<Rightarrow> error + string" where
  "colorize col line squigly =
     (if \<not> col then Inr line
      else if squigly \<noteq> [] then
        (case colorize_loop line 0 squigly (map (\<lambda>c. [c]) line, SPACE, 0) of
           (chars, flag, offset) \<Rightarrow>
             Inr (concat (list_insert (length squigly + offset) END_COLOR chars)))
      else
        (case line of
           [] \<Rightarrow> Inl IndexError
         | c # _ \<Rightarrow>
             Inr (concat ((case color_map line c of None \<Rightarrow> [] | Some col \<Rightarrow> col)
                          # map (\<lambda>c. [c]) line @ [END_COLOR]))))"


subsection \<open>Loops whose body may raise\<close>

fun fold_err :: "('a \<Rightarrow> 's \<Rightarrow> error + 's) \<Rightarrow> 'a list \<Rightarrow> 's \<Rightarrow> error + 's" where
  "fold_err f [] s = Inr s"
| "fold_err f (x # xs) s = (case f x s of Inl err \<Rightarrow> Inl err | Inr s' \<Rightarrow> fold_err f xs s')"


subsection \<open>\<^verbatim>\<open>get_line\<close>\<close>

text \<open>
  The inner loop over the tuples of one key. Its state is the set \<^verbatim>\<open>lines\<close>, the
  dictionary \<^verbatim>\<open>changes_dict\<close> from a diff line to the set of its file names, and the
  dictionary \<^verbatim>\<open>squigly_dict\<close> from a diff line to its merged squigly line.
\<close>

type_synonym groups = "string list \<times> (string \<rightharpoonup> string list) \<times> (string \<rightharpoonup> string)"

definition collect_step :: "diff_tuple \<Rightarrow> groups \<Rightarrow> error + groups" where
  "collect_step t g =
     (case (t, g) of ((diff_line, meta, squigly_line), (lines, changes_dict, squigly_dict)) \<Rightarrow>
        (case (if squigly_line \<noteq> [] then
                 (case (case squigly_dict diff_line of
                          None \<Rightarrow> Inr squigly_line
                        | Some old \<Rightarrow> merge_squigly squigly_line old) of
                    Inl err \<Rightarrow> Inl err
                  | Inr merged \<Rightarrow> Inr (squigly_dict(diff_line \<mapsto> merged)))
               else Inr squigly_dict) of
           Inl err \<Rightarrow> Inl err
         | Inr squigly_dict' \<Rightarrow>
             Inr (set_add diff_line lines,
                  changes_dict(diff_line \<mapsto>
                    set_add meta (case changes_dict diff_line of None \<Rightarrow> [] | Some fs \<Rightarrow> fs)),
                  squigly_dict')))"

definition collect :: "diff_tuple list \<Rightarrow> error + groups" where
  "collect ts = fold_err collect_step ts ([], Map.empty, Map.empty)"

text \<open>
  \<^verbatim>\<open>sorted(lines, key=lambda line: len(changes_dict[line]))[:MAX_DIFF_GROUPS]\<close>: the sort is
  stable, over the set in its iteration order; a line missing from \<^verbatim>\<open>changes_dict\<close> raises.
\<close>

definition select_lines :: "env \<Rightarrow> string list \<Rightarrow> (string \<rightharpoonup> string list) \<Rightarrow> error + string list" where
  "select_lines e lines changes_dict =
     (if list_ex (\<lambda>l. changes_dict l = None) (set_order e lines) then Inl KeyError
      else Inr (take MAX_DIFF_GROUPS
                  (sort_key (\<lambda>l. length (the (changes_dict l))) (set_order e lines))))"

text \<open>\<^verbatim>\<open>"(%d/%d)" % (len(files), num_files)\<close>.\<close>

definition file_count :: "nat \<Rightarrow> nat \<Rightarrow> string" where
  "file_count k n = ''('' @ str_int (int k) @ ''/'' @ str_int (int n) @ '')''"

text \<open>The body of the loop over the selected lines: the one or two output lines of a group.\<close>

definition render_group ::
  "env \<Rightarrow> MultiDiff \<Rightarrow> int \<Rightarrow> (string \<rightharpoonup> string list) \<Rightarrow> (string \<rightharpoonup> string) \<Rightarrow> string
   \<Rightarrow> error + string list" where
  "render_group e md line_no changes_dict squigly_dict diff_line =
     (let squigly_line = (case squigly_dict diff_line of None \<Rightarrow> [] | Some s \<Rightarrow> s)
      in case colorize (colored md) diff_line squigly_line of
           Inl err \<Rightarrow> Inl err
         | Inr ctext \<Rightarrow>
             (case changes_dict diff_line of
                None \<Rightarrow> Inl KeyError
              | Some fs \<Rightarrow>
                  (let num_files = length (files md);
                       line = [str_int line_no @ '' '' @ ctext, file_count (length fs) num_files]
                              @ (if length fs \<noteq> num_files
                                 then [join '', '' (set_order e fs)] else []);
                       first = join '' '' line
                   in if \<not> colored md \<and> squigly_line \<noteq> [] then
                        (case int_log10 e line_no of
                           Inl err \<Rightarrow> Inl err
                         | Inr k \<Rightarrow>
                             Inr [first, replicate (nat (2 + k)) (CHR '' '') @ squigly_line])
                      else Inr [first])))"

text \<open>The outputs of a loop, concatenated up to the first iteration that raises.\<close>

fun concat_err :: "(error + 'a list) list \<Rightarrow> error + 'a list" where
  "concat_err [] = Inr []"
| "concat_err (r # rs) =
     (case r of
        Inl err \<Rightarrow> Inl err
      | Inr xs \<Rightarrow> (case concat_err rs of Inl err \<Rightarrow> Inl err | Inr ys \<Rightarrow> Inr (xs @ ys)))"

text \<open>\<^verbatim>\<open>diff_dict[key]\<close> when \<^verbatim>\<open>key in diff_dict\<close>, else nothing to loop over.\<close>

definition tuples_of :: "diff_dict \<Rightarrow> char \<Rightarrow> diff_tuple list" where
  "tuples_of diff_dict key = (case map_of diff_dict key of None \<Rightarrow> [] | Some ts \<Rightarrow> ts)"

text \<open>The groups of one key that are rendered, with the two dictionaries they are rendered from.\<close>

definition selected ::
  "env \<Rightarrow> diff_tuple list
   \<Rightarrow> error + string list \<times> (string \<rightharpoonup> string list) \<times> (string \<rightharpoonup> string)" where
  "selected e ts =
     (case collect ts of
        Inl err \<Rightarrow> Inl err
      | Inr (lines, changes_dict, squigly_dict) \<Rightarrow>
          (case select_lines e lines changes_dict of
             Inl err \<Rightarrow> Inl err
           | Inr sel \<Rightarrow> Inr (sel, changes_dict, squigly_dict)))"

text \<open>One round of the loop over the keys \<^verbatim>\<open>[MINUS, PLUS]\<close>.\<close>

definition get_key_lines :: "env \<Rightarrow> MultiDiff \<Rightarrow> int \<Rightarrow> diff_dict \<Rightarrow> char \<Rightarrow> error + string list" where
  "get_key_lines e md line_no diff_dict key =
     (case selected e (tuples_of diff_dict key) of
        Inl err \<Rightarrow> Inl err
      | Inr (sel, changes_dict, squigly_dict) \<Rightarrow>
          concat_err (map (render_group e md line_no changes_dict squigly_dict) sel))"

definition get_dict :: "MultiDiff \<Rightarrow> int \<Rightarrow> diff_dict" where
  "get_dict md line_no = (case diff_info md line_no of None \<Rightarrow> [] | Some d \<Rightarrow> d)"

definition separator :: "string list" where
  "separator = ['' '', replicate SEP_WIDTH (CHR ''-''), '' '']"

definition get_line :: "env \<Rightarrow> MultiDiff \<Rightarrow> int \<Rightarrow> error + string list" where
  "get_line e md line_no =
     (let diff_dict = get_dict md line_no
      in case concat_err (map (get_key_lines e md line_no diff_dict) [MINUS, PLUS]) of
           Inl err \<Rightarrow> Inl err
         | Inr output \<Rightarrow>
             Inr (output @ (if diff_dict \<noteq> [] \<and> get_dict md (line_no + 1) = []
                            then separator else [])))"


subsection \<open>\<^verbatim>\<open>__str__\<close>\<close>

definition limit :: "bool \<Rightarrow> string \<Rightarrow> int \<Rightarrow> string" where
  "limit col text len =
     (if int (length text) > len
      then py_prefix text (len - int (length END_LONG_LINE))
             @ (if col then END_COLOR else []) @ END_LONG_LINE
      else text)"

definition str_step :: "env \<Rightarrow> MultiDiff \<Rightarrow> nat \<Rightarrow> string list \<times> bool \<Rightarrow> error + string list \<times> bool" where
  "str_step e md i st =
     (case get_line e md (int i) of
        Inl err \<Rightarrow> Inl err
      | Inr ls \<Rightarrow>
          (let lines = filter (\<lambda>l. l \<noteq> []) ls
           in if lines \<noteq> []
              then Inr (fst st @ [join [CHR 0x0A]
                                    (map (\<lambda>line. limit (colored md) line (term_width e)) lines)],
                        True)
              else Inr st))"

definition to_str :: "env \<Rightarrow> MultiDiff \<Rightarrow> error + string" where
  "to_str e md =
     (let base = color_line (colored md) (base_fn md) PURPLE;
          filenames = join '', '' (map basename (files md));
          output = [''Comparing '' @ base @ '' with '' @ filenames,
                    replicate SEP_WIDTH (CHR ''='')]
      in case fold_err (str_step e md) [0..<length (base_lines md)] (output, False) of
           Inl err \<Rightarrow> Inl err
         | Inr (output1, diff) \<Rightarrow>
             Inr (join [CHR 0x0A]
                    ((if \<not> diff then output1 @ [''(no diff)''] else output1)
                     @ [replicate SEP_WIDTH (CHR ''='')])))"


section \<open>The function \<^verbatim>\<open>multidiff\<close>\<close>

text \<open>
  The state of the loop over one diff: the dictionary \<^verbatim>\<open>local_diff\<close> from a line number
  to the (line, file name) pairs found for it, in the order its keys were inserted, the
  dictionary \<^verbatim>\<open>squigly_dict\<close> from the last diff line (or \<^verbatim>\<open>None\<close>) to the squigly line
  that followed it, \<^verbatim>\<open>last_added\<close> and \<^verbatim>\<open>offset\<close>.
\<close>

record norm =
  local_diff :: "(int \<times> (string \<times> string) list) list"
  squigly_dict :: "string option \<rightharpoonup> string"
  last_added :: "string option"
  offset :: int

definition norm_init :: norm where
  "norm_init = \<lparr>local_diff = [], squigly_dict = Map.empty, last_added = None, offset = 1\<rparr>"

definition norm_step :: "string \<Rightarrow> nat \<Rightarrow> string \<Rightarrow> norm \<Rightarrow> norm" where
  "norm_step filename i line st =
     (if startswith line QUESTIONMARK then
        st\<lparr>squigly_dict := (squigly_dict st)(last_added st \<mapsto> line), offset := offset st - 1\<rparr>
      else if startswith line PLUS then
        st\<lparr>local_diff := setdefault_append (int i + offset st) (line, filename) (local_diff st),
           last_added := Some line\<rparr>
      else if startswith line MINUS then
        st\<lparr>local_diff := setdefault_append (int i + offset st) (line, filename) (local_diff st),
           last_added := Some line, offset := offset st - 1\<rparr>
      else st)"

fun norm_loop :: "string \<Rightarrow> nat \<Rightarrow> string list \<Rightarrow> norm \<Rightarrow> norm" where
  "norm_loop filename i [] st = st"
| "norm_loop filename i (line # rest) st =
     norm_loop filename (Suc i) rest (norm_step filename i line st)"

text \<open>
  The second loop hands every pair to \<^verbatim>\<open>parse_line\<close>. Python leaves the order of the line
  numbers open; each line number has its own bucket, so the order does not show in
  \<^verbatim>\<open>diff_info\<close>.
\<close>

definition parse_entry ::
  "env \<Rightarrow> (string option \<rightharpoonup> string) \<Rightarrow> int \<Rightarrow> string \<times> string \<Rightarrow> MultiDiff \<Rightarrow> error + MultiDiff" where
  "parse_entry e sq line_no entry md =
     (case entry of (line, filename) \<Rightarrow>
        parse_line e line_no (rstrip line) filename
          (rstrip (case sq (Some line) of None \<Rightarrow> [] | Some s \<Rightarrow> s)) md)"

definition parse_group ::
  "env \<Rightarrow> (string option \<rightharpoonup> string) \<Rightarrow> int \<times> (string \<times> string) list \<Rightarrow> MultiDiff
   \<Rightarrow> error + MultiDiff" where
  "parse_group e sq grp md = fold_err (parse_entry e sq (fst grp)) (snd grp) md"

text \<open>
  One round of the loop over the files. The file is given by its path and by the diff
  that \<^verbatim>\<open>difflib.Differ().compare\<close> yields for its lines against the base lines.
\<close>

definition add_file :: "env \<Rightarrow> string \<times> string list \<Rightarrow> MultiDiff \<Rightarrow> error + MultiDiff" where
  "add_file e file md =
     (let st = norm_loop (basename (fst file)) 0 (snd file) norm_init
      in fold_err (parse_group e (squigly_dict st)) (local_diff st) md)"

definition build ::
  "env \<Rightarrow> string \<Rightarrow> string list \<Rightarrow> (string \<times> string list) list \<Rightarrow> bool \<Rightarrow> error + MultiDiff" where
  "build e base lines file_diffs col =
     fold_err (add_file e) file_diffs (init (basename base) lines (map fst file_diffs) col)"

definition multidiff ::
  "env \<Rightarrow> string \<Rightarrow> string list \<Rightarrow> (string \<times> string list) list \<Rightarrow> bool \<Rightarrow> error + string" where
  "multidiff e base lines file_diffs col = bind_err (build e base lines file_diffs col) (to_str e)"

text \<open>What \<^verbatim>\<open>get_line\<close> returns on the multi-diff that \<^verbatim>\<open>multidiff\<close> has built.\<close>

definition multidiff_line ::
  "env \<Rightarrow> string \<Rightarrow> string list \<Rightarrow> (string \<times> string list) list \<Rightarrow> bool \<Rightarrow> int
   \<Rightarrow> error + string list" where
  "multidiff_line e base lines file_diffs col line_no =
     bind_err (build e base lines file_diffs col) (\<lambda>md. get_line e md line_no)"


section \<open>The merge of two squigly lines as the specification words it\<close>

text \<open>
  The base is overwritten, column by column of the other line, where it holds a blank or a
  caret and the other line holds something else.
\<close>

definition overwrite_spec :: "string \<Rightarrow> string \<Rightarrow> string" where
  "overwrite_spec base other =
     map (\<lambda>j. if j < length other \<and> base ! j \<in> {HAT, SPACE} \<and> base ! j \<noteq> other ! j
               then other ! j else base ! j) [0..<length base]"

text \<open>The longer line is the base; of two lines of one length, the second.\<close>

definition mergeHighlight_spec :: "string \<Rightarrow> string \<Rightarrow> string" where
  "mergeHighlight_spec h1 h2 =
     (if length h1 > length h2 then overwrite_spec h1 h2 else overwrite_spec h2 h1)"

section \<open>Notions the properties are stated with\<close>

text \<open>A diff line that the loop of \<^verbatim>\<open>multidiff\<close> records: an addition or a removal.\<close>

definition tagged :: "string \<Rightarrow> bool" where
  "tagged l = (startswith l PLUS \<or> startswith l MINUS)"

text \<open>A diff line that stands for a line of the base: neither a squigly line nor a removal.\<close>

definition is_base_line :: "string \<Rightarrow> bool" where
  "is_base_line l = (\<not> startswith l QUESTIONMARK \<and> \<not> startswith l MINUS)"

text \<open>One more than the number of base lines before position \<open>i\<close> of a diff: the number, counted from 1, of the base line that the diff has reached there.\<close>

definition line_no_at :: "string list \<Rightarrow> nat \<Rightarrow> int" where
  "line_no_at s i = 1 + int (length (filter is_base_line (take i s)))"

text \<open>The (line number, line, file name) triples of the recorded lines of a diff, in its order.\<close>

definition records_of :: "string \<Rightarrow> string list \<Rightarrow> (int \<times> string \<times> string) list" where
  "records_of fn s =
     map (\<lambda>i. (line_no_at s i, s ! i, fn)) (filter (\<lambda>i. tagged (s ! i)) [0..<length s])"

text \<open>The (line, file name) pairs recorded for one line number.\<close>

definition records_at :: "string \<Rightarrow> string list \<Rightarrow> int \<Rightarrow> (string \<times> string) list" where
  "records_at fn s n = map snd (filter (\<lambda>r. fst r = n) (records_of fn s))"

text \<open>\<^verbatim>\<open>d.get(k, [])\<close> on a dictionary of lists.\<close>

definition entries :: "('k \<times> 'v list) list \<Rightarrow> 'k \<Rightarrow> 'v list" where
  "entries d k = (case map_of d k of None \<Rightarrow> [] | Some vs \<Rightarrow> vs)"

text \<open>The tuple that the second loop of \<^verbatim>\<open>multidiff\<close> hands to \<^verbatim>\<open>parse_line\<close> for a pair.\<close>

definition entry_tuple :: "(string option \<rightharpoonup> string) \<Rightarrow> string \<times> string \<Rightarrow> diff_tuple" where
  "entry_tuple sq entry =
     (rstrip (fst entry), snd entry, rstrip (case sq (Some (fst entry)) of None \<Rightarrow> [] | Some s \<Rightarrow> s))"

text \<open>What \<^verbatim>\<open>parse_line\<close> does to the dictionary of the line number for such a pair.\<close>

definition add_tuple :: "(string option \<rightharpoonup> string) \<Rightarrow> string \<times> string \<Rightarrow> diff_dict \<Rightarrow> diff_dict" where
  "add_tuple sq entry d = setdefault_append (hd (fst entry)) (entry_tuple sq entry) d"

text \<open>Two multi-diffs that differ in \<^verbatim>\<open>diff_info\<close> at most.\<close>

definition same_fields :: "MultiDiff \<Rightarrow> MultiDiff \<Rightarrow> bool" where
  "same_fields md md' = (colored md' = colored md \<and> files md' = files md
     \<and> base_lines md' = base_lines md \<and> base_fn md' = base_fn md)"

text \<open>No list of a dictionary is empty and no diff line in it is the empty string.\<close>

definition wf_dict :: "diff_dict \<Rightarrow> bool" where
  "wf_dict d = (\<forall>g\<in>set d. snd g \<noteq> [] \<and> (\<forall>t\<in>set (snd g). fst t \<noteq> []))"

text \<open>Every dictionary in \<^verbatim>\<open>diff_info\<close> is non-empty and well-formed: what \<^verbatim>\<open>parse_line\<close> leaves behind.\<close>

definition wf_info :: "MultiDiff \<Rightarrow> bool" where
  "wf_info md = (\<forall>n d. diff_info md n = Some d \<longrightarrow> d \<noteq> [] \<and> wf_dict d)"

text \<open>Every line number in \<^verbatim>\<open>diff_info\<close> is at least 1.\<close>

definition pos_info :: "MultiDiff \<Rightarrow> bool" where
  "pos_info md = (\<forall>n d. diff_info md n = Some d \<longrightarrow> 1 \<le> n)"

text \<open>The number of tuples registered for a line number.\<close>

definition num_records :: "MultiDiff \<Rightarrow> int \<Rightarrow> nat" where
  "num_records md n = sum_list (map (\<lambda>g. length (snd g)) (get_dict md n))"

text \<open>The file names of the tuples with a given diff line, one per tuple.\<close>

definition sources :: "diff_tuple list \<Rightarrow> string \<Rightarrow> string list" where
  "sources ts l = map (\<lambda>t. fst (snd t)) (filter (\<lambda>t. fst t = l) ts)"

text \<open>The state of the inner loop of \<^verbatim>\<open>get_line\<close> after the tuples \<open>ts\<close>: the diff lines seen, each with the set of its file names.\<close>

definition groups_ok :: "diff_tuple list \<Rightarrow> groups \<Rightarrow> bool" where
  "groups_ok ts g =
     (case g of (lines, cd, sd) \<Rightarrow>
        distinct lines \<and> set lines = fst ` set ts
        \<and> (\<forall>l. l \<notin> fst ` set ts \<longrightarrow> cd l = None)
        \<and> (\<forall>l\<in>fst ` set ts. \<exists>fs. cd l = Some fs \<and> distinct fs \<and> set fs = set (sources ts l)))"

text \<open>The file-count of a variant: the number of distinct file names among its tuples.\<close>

definition variant_count :: "diff_tuple list \<Rightarrow> string \<Rightarrow> nat" where
  "variant_count ts l = card (set (sources ts l))"
text \<open>The first output line of a group: the line number and the diff line as colored, the file-count, and the file names unless every file has the variant.\<close>

definition first_line :: "env \<Rightarrow> MultiDiff \<Rightarrow> int \<Rightarrow> string \<Rightarrow> string list \<Rightarrow> string" where
  "first_line e md n ctext fs =
     join '' '' ([str_int n @ '' '' @ ctext, file_count (length fs) (length (files md))]
                 @ (if length fs \<noteq> length (files md) then [join '', '' (set_order e fs)] else []))"

text \<open>The output lines of one group when nothing raises: the first line, and without colors the merged squigly line behind its blanks when there is one.\<close>

definition group_out ::
  "env \<Rightarrow> MultiDiff \<Rightarrow> int \<Rightarrow> (string \<rightharpoonup> string list) \<Rightarrow> (string \<rightharpoonup> string) \<Rightarrow> string
   \<Rightarrow> string list" where
  "group_out e md n cd sd l =
     (let sq = (case sd l of None \<Rightarrow> [] | Some s \<Rightarrow> s);
          ctext = (case colorize (colored md) l sq of Inl err \<Rightarrow> [] | Inr c \<Rightarrow> c);
          fs = (case cd l of None \<Rightarrow> [] | Some fs \<Rightarrow> fs)
      in first_line e md n ctext fs
         # (if \<not> colored md \<and> sq \<noteq> []
            then [replicate (nat (2 + trunc_log10 e n)) (CHR '' '') @ sq] else []))"

text \<open>The separator that ends the block of a line with records whose next line number has none.\<close>

definition sep_of :: "MultiDiff \<Rightarrow> int \<Rightarrow> string list" where
  "sep_of md n = (if 0 < num_records md n \<and> num_records md (n + 1) = 0 then separator else [])"

text \<open>The first line of the report.\<close>

definition header_line :: "MultiDiff \<Rightarrow> string" where
  "header_line md =
     ''Comparing '' @ color_line (colored md) (base_fn md) PURPLE @ '' with ''
       @ join '', '' (map basename (files md))"

text \<open>The rule under the header and at the end of the report.\<close>

definition rule_line :: string where
  "rule_line = replicate SEP_WIDTH (CHR ''='')"

text \<open>The block that \<^verbatim>\<open>__str__\<close> appends for index \<open>i\<close>: the non-empty lines that \<^verbatim>\<open>get_line\<close> returns, each limited to the terminal width, joined by newlines; nothing when there is no such line.\<close>

definition block :: "env \<Rightarrow> MultiDiff \<Rightarrow> nat \<Rightarrow> string list" where
  "block e md i =
     (case get_line e md (int i) of
        Inl err \<Rightarrow> []
      | Inr ls \<Rightarrow>
          if filter (\<lambda>l. l \<noteq> []) ls = [] then []
          else [join [CHR 0x0A]
                  (map (\<lambda>line. limit (colored md) line (term_width e))
                     (filter (\<lambda>l. l \<noteq> []) ls))])"

text \<open>The blocks of all indices of the base lines, in order.\<close>

definition blocks :: "env \<Rightarrow> MultiDiff \<Rightarrow> string list" where
  "blocks e md = concat (map (block e md) [0..<length (base_lines md)])"

text \<open>Two states of the loop over a diff, at two positions, that record the same lines under the same line numbers from there on: they differ at most in the squigly line stored under \<^verbatim>\<open>None\<close>.\<close>

definition similar :: "nat \<Rightarrow> norm \<Rightarrow> nat \<Rightarrow> norm \<Rightarrow> bool" where
  "similar i st i' st' =
     (local_diff st' = local_diff st \<and> last_added st' = last_added st
      \<and> int i' + offset st' = int i + offset st
      \<and> (\<forall>l. squigly_dict st' (Some l) = squigly_dict st (Some l)))"

text \<open>
  The environment of the examples: a raising logger, sets iterated in insertion order, a
  terminal of 80 columns, and the exact logarithm, which the float gives at the line
  numbers of the examples.
\<close>

definition example_env :: env where
  "example_env =
     \<lparr>log_error_raises = True, set_order = id, term_width = 80, trunc_log10 = exact_log10\<rparr>"


text \<open>A multi-diff with changes at lines 2 and 3 of a base of four lines.\<close>

definition example_md :: MultiDiff where
  "example_md =
     register 3 PLUS (''+ c'', ''f'', []) (register 2 PLUS (''+ b'', ''f'', [])
       (register 2 MINUS (''- x'', ''f'', []) (init ''base'' [''a'', ''b'', ''c'', ''d''] [''f''] False)))"

text \<open>Four variants of one line, found in two, one, one and three files of four.\<close>

definition four_variants :: "diff_tuple list" where
  "four_variants =
     [(''- w'', ''A'', []), (''- w'', ''B'', []), (''- x'', ''C'', []), (''- y'', ''D'', []),
      (''- z'', ''A'', []), (''- z'', ''B'', []), (''- z'', ''C'', [])]"

text \<open>One variant that one file shows twice and another file once.\<close>

definition repeated_file :: "diff_tuple list" where
  "repeated_file = [(''- x'', ''A'', []), (''- x'', ''A'', []), (''- x'', ''B'', [])]"


text \<open>The environment of the examples with a terminal of 8 columns.\<close>

definition narrow_env :: env where
  "narrow_env = example_env\<lparr>term_width := 8\<rparr>"

text \<open>A multi-diff with those four variants removed at line 1.\<close>

definition four_md :: MultiDiff where
  "four_md = fold (register 1 MINUS) four_variants
               (init ''base'' [''v'', ''''] [''A'', ''B'', ''C'', ''D''] False)"

text \<open>A multi-diff with that variant at line 1.\<close>

definition repeated_md :: MultiDiff where
  "repeated_md = fold (register 1 MINUS) repeated_file
                   (init ''base'' [''v'', ''''] [''A'', ''B'', ''C''] False)"

text \<open>A multi-diff without colors whose two diff lines at line 12 have squigly lines.\<close>

definition squigly_md :: MultiDiff where
  "squigly_md =
     register 12 PLUS (''+ abxd'', ''f'', ''?   ^'')
       (register 12 MINUS (''- abcd'', ''f'', ''?   ^'') (init ''base'' [] [''f''] False))"


section \<open>Facts about the built-ins\<close>

lemmas char_consts = HAT_def MINUS_def PLUS_def SPACE_def QUESTIONMARK_def

lemmas color_consts = ESC_def PURPLE_def GREEN_BACK_def RED_BACK_def END_COLOR_def

lemma length_str_nat: "length (str_nat n) = Suc (ilog10 n)"
proof (induction n rule: str_nat.induct)
  case (1 n)
  show ?case
  proof (cases "n < 10")
    case True
    then show ?thesis by (simp add: str_nat.simps [of n] ilog10.simps [of n])
  next
    case False
    then show ?thesis using 1 by (simp add: str_nat.simps [of n] ilog10.simps [of n])
  qed
qed

lemma length_str_int: "0 \<le> n \<Longrightarrow> length (str_int n) = Suc (ilog10 (nat n))"
  by (simp add: str_int_def length_str_nat)


section \<open>Merging squigly lines\<close>

lemma merge_loop_spec:
  "i + length other \<le> length base \<Longrightarrow>
   merge_loop i other base =
     Inr (map (\<lambda>j. if i \<le> j \<and> j < i + length other \<and> base ! j \<in> {HAT, SPACE}
                       \<and> base ! j \<noteq> other ! (j - i)
                    then other ! (j - i) else base ! j) [0..<length base])"
proof (induction other arbitrary: i base)
  case Nil
  have "map (\<lambda>j. base ! j) [0..<length base] = base" by (rule map_nth)
  moreover have "map (\<lambda>j. if i \<le> j \<and> j < i + length ([]::string) \<and> base ! j \<in> {HAT, SPACE}
                       \<and> base ! j \<noteq> [] ! (j - i)
                    then [] ! (j - i) else base ! j) [0..<length base]
                 = map (\<lambda>j. base ! j) [0..<length base]"
    by (rule map_cong [OF refl]) auto
  ultimately show ?case by simp
next
  case (Cons c other)
  let ?b = "if base ! i \<in> {HAT, SPACE} \<and> base ! i \<noteq> c then base[i := c] else base"
  have len: "length ?b = length base" by simp
  have le: "Suc i + length other \<le> length ?b" using Cons.prems by simp
  have "merge_loop i (c # other) base = merge_loop (Suc i) other ?b"
    using Cons.prems by simp
  also have "\<dots> = Inr (map (\<lambda>j. if Suc i \<le> j \<and> j < Suc i + length other
                       \<and> ?b ! j \<in> {HAT, SPACE} \<and> ?b ! j \<noteq> other ! (j - Suc i)
                    then other ! (j - Suc i) else ?b ! j) [0..<length ?b])"
    by (rule Cons.IH [OF le])
  also have "\<dots> = Inr (map (\<lambda>j. if i \<le> j \<and> j < i + length (c # other)
                       \<and> base ! j \<in> {HAT, SPACE} \<and> base ! j \<noteq> (c # other) ! (j - i)
                    then (c # other) ! (j - i) else base ! j) [0..<length base])"
    unfolding len
    apply (simp only: sum.inject)
    apply (rule map_cong [OF refl])
    subgoal for j
      by (cases "j = i"; cases "Suc i \<le> j") (auto simp: nth_list_update nth_Cons' Suc_diff_le)
    done
  finally show ?case .
qed

lemma merge_loop_0:
  "length other \<le> length base \<Longrightarrow> merge_loop 0 other base = Inr (overwrite_spec base other)"
  using merge_loop_spec [of 0 other base] by (auto simp: overwrite_spec_def)

lemma merge_squigly_eq: "merge_squigly s1 s2 = Inr (mergeHighlight_spec s1 s2)"
  by (simp add: merge_squigly_def mergeHighlight_spec_def merge_loop_0)

lemma overwrite_spec_self: "overwrite_spec h h = h"
proof -
  have "overwrite_spec h h = map (\<lambda>j. h ! j) [0..<length h]"
    unfolding overwrite_spec_def by (rule map_cong [OF refl]) simp
  then show ?thesis by (simp add: map_nth)
qed

lemma length_overwrite_spec: "length (overwrite_spec base other) = length base"
  by (simp add: overwrite_spec_def)

lemma overwrite_spec_keep:
  "i < length base \<Longrightarrow> base ! i \<notin> {HAT, SPACE} \<Longrightarrow> overwrite_spec base other ! i = base ! i"
  by (simp add: overwrite_spec_def)

text \<open>
  C5. \<^verbatim>\<open>merge_squigly\<close> takes the longer line as the base (the second of two lines of one
  length) and overwrites a column of the base with the other line's character exactly when
  the column lies in the other line, the base holds a blank or a caret there and the two
  characters differ. No index is out of range. The result is as long as the longer line,
  and a line merged with itself is unchanged.
\<close>

theorem merge_squigly_refines_spec:
  "merge_squigly h1 h2 = Inr (mergeHighlight_spec h1 h2)
   \<and> length (mergeHighlight_spec h1 h2) = max (length h1) (length h2)
   \<and> merge_squigly h h = Inr h"
  by (simp add: merge_squigly_eq mergeHighlight_spec_def length_overwrite_spec
      overwrite_spec_self)

text \<open>
  C4, as the code has it. When the squigly line of a new tuple and the line merged so far
  hold two markers other than blank and caret in one column, the merge keeps the marker
  of the longer line; of two lines of one length it keeps the marker merged so far, not
  the one of the tuple merged last.
\<close>

theorem conflict_keeps_base_marker:
  assumes "sd diff_line = Some old"
    and "i < length new" and "i < length old"
    and "new ! i \<notin> {HAT, SPACE}" and "old ! i \<notin> {HAT, SPACE}"
  shows "\<exists>lines' cd' sd' r.
           collect_step (diff_line, meta, new) (lines, cd, sd) = Inr (lines', cd', sd')
           \<and> sd' diff_line = Some r
           \<and> r ! i = (if length new > length old then new ! i else old ! i)"
proof -
  have ne: "new \<noteq> []" using assms(2) by auto
  have r: "mergeHighlight_spec new old ! i = (if length new > length old then new ! i else old ! i)"
    using assms by (simp add: mergeHighlight_spec_def overwrite_spec_keep)
  show ?thesis
    using assms(1) ne r by (simp add: collect_step_def merge_squigly_eq)
qed

theorem conflict_keeps_base_marker_witness:
  "\<exists>lines' cd' sd' r.
     collect_step (''+ x'', ''B'', ''? +'')
       ([''+ x''], [''+ x'' \<mapsto> [''A'']], [''+ x'' \<mapsto> ''? -'']) = Inr (lines', cd', sd')
     \<and> sd' ''+ x'' = Some r \<and> r ! 2 = CHR ''-''"
  using conflict_keeps_base_marker [of "[''+ x'' \<mapsto> ''? -'']" "''+ x''" "''? -''" 2 "''? +''"
      "''B''" "[''+ x'']" "[''+ x'' \<mapsto> [''A'']]"]
  by (simp add: char_consts)

text \<open>
  The claim as the specification has it fails: file \<open>A\<close> is merged first and file \<open>B\<close>
  last, their squigly lines for the same diff line hold \<open>-\<close> and \<open>+\<close> in column 2, and
  the line that is rendered keeps the \<open>-\<close> of \<open>A\<close>.
\<close>

theorem last_merged_marker_lost:
  "multidiff_line example_env ''base'' [''x'']
     [(''A'', [''+ x'', ''? -'']), (''B'', [''+ x'', ''? +''])] False 1
   = Inr [''1 + x (2/2)'', ''  ? -'', '' '', ''-----'', '' '']"
  by code_simp


section \<open>Limiting a line to the terminal width\<close>

lemma limit_short: "int (length text) \<le> w \<Longrightarrow> limit col text w = text"
  by (simp add: limit_def)

lemma limit_long:
  "3 \<le> w \<Longrightarrow> w < int (length text) \<Longrightarrow>
   limit col text w = take (nat (w - 3)) text @ (if col then END_COLOR else []) @ END_LONG_LINE"
  by (simp add: limit_def py_prefix_def END_LONG_LINE_def)

lemma length_limit_long:
  "3 \<le> w \<Longrightarrow> w < int (length text) \<Longrightarrow>
   int (length (limit col text w)) = (if col then w + 4 else w)"
  by (simp add: limit_long END_LONG_LINE_def END_COLOR_def min_def)


section \<open>Rendering without colors\<close>

lemma colorize_plain: "colorize False line squigly = Inr line"
  by (simp add: colorize_def)


section \<open>Dictionaries of lists and the registration of a tuple\<close>

lemma entries_setdefault_append:
  "entries (setdefault_append k v d) k' = entries d k' @ (if k' = k then [v] else [])"
  by (induction d) (auto simp: entries_def)

lemma keys_setdefault_append:
  "map fst (setdefault_append k v d) = (if k \<in> set (map fst d) then map fst d else map fst d @ [k])"
  by (induction d) (force split: if_splits)+

lemma distinct_setdefault_append:
  "distinct (map fst d) \<Longrightarrow> distinct (map fst (setdefault_append k v d))"
  by (simp add: keys_setdefault_append)

lemma setdefault_append_not_Nil: "setdefault_append k v d \<noteq> []"
  by (cases d) (auto split: if_splits)

lemma tuples_of_entries: "tuples_of d key = entries d key"
  by (simp add: tuples_of_def entries_def)

lemma startswith_rstrip:
  assumes "startswith l c" and "\<not> is_space c"
  shows "startswith (rstrip l) c"
proof -
  obtain t where l: "l = c # t" using assms(1) by (cases l) auto
  have "dropWhile is_space (rev t @ [c]) = dropWhile is_space (rev t) @ [c] \<or> dropWhile is_space (rev t @ [c]) = [c]"
    using assms(2) by (auto simp: dropWhile_append)
  then show ?thesis by (auto simp: l rstrip_def)
qed

lemma tagged_rstrip: "tagged l \<Longrightarrow> \<exists>t. rstrip l = hd l # t \<and> hd l \<in> {MINUS, PLUS}"
proof -
  assume t: "tagged l"
  then obtain c where c: "startswith l c" "c \<in> {MINUS, PLUS}" by (auto simp: tagged_def)
  then have ns: "\<not> is_space c" by (auto simp: is_space_def char_consts)
  have "startswith (rstrip l) c" using c(1) ns by (rule startswith_rstrip)
  moreover have "hd l = c" using c(1) by (cases l) auto
  ultimately show ?thesis using c(2) by (cases "rstrip l") auto
qed

lemma parse_entry_tagged:
  "tagged (fst entry) \<Longrightarrow>
   parse_entry e sq n entry md = Inr (register n (hd (fst entry)) (entry_tuple sq entry) md)"
proof -
  assume "tagged (fst entry)"
  then obtain t where "rstrip (fst entry) = hd (fst entry) # t" "hd (fst entry) \<in> {MINUS, PLUS}"
    using tagged_rstrip by blast
  then show ?thesis
    by (cases entry) (auto simp: parse_entry_def parse_line_def entry_tuple_def)
qed

lemma register_get: "diff_info (register n k t md) n' =
   (if n' = n then Some (setdefault_append k t (get_dict md n)) else diff_info md n')"
  by (simp add: register_def get_dict_def)

lemma register_fields:
  "colored (register n k t md) = colored md" "files (register n k t md) = files md"
  "base_lines (register n k t md) = base_lines md" "base_fn (register n k t md) = base_fn md"
  by (simp_all add: register_def)

lemma parse_group_spec:
  assumes "\<forall>x\<in>set es. tagged (fst x)"
  shows "\<exists>md'. fold_err (parse_entry e sq n) es md = Inr md' \<and> same_fields md md'
     \<and> (\<forall>n'. diff_info md' n' =
           (if n' = n \<and> es \<noteq> [] then Some (fold (add_tuple sq) es (get_dict md n))
            else diff_info md n'))"
  using assms
proof (induction es arbitrary: md)
  case Nil
  then show ?case by (simp add: same_fields_def)
next
  case (Cons x es)
  let ?md1 = "register n (hd (fst x)) (entry_tuple sq x) md"
  have x: "parse_entry e sq n x md = Inr ?md1" using Cons.prems by (simp add: parse_entry_tagged)
  have "\<forall>x\<in>set es. tagged (fst x)" using Cons.prems by simp
  from Cons.IH [OF this, of ?md1] obtain md' where
    md': "fold_err (parse_entry e sq n) es ?md1 = Inr md'" "same_fields ?md1 md'"
      "\<forall>n'. diff_info md' n' =
           (if n' = n \<and> es \<noteq> [] then Some (fold (add_tuple sq) es (get_dict ?md1 n))
            else diff_info ?md1 n')" by blast
  have g: "get_dict ?md1 n = add_tuple sq x (get_dict md n)"
    by (simp add: get_dict_def register_get add_tuple_def)
  have "fold_err (parse_entry e sq n) (x # es) md = Inr md'" using x md'(1) by simp
  moreover have "same_fields md md'" using md'(2) by (simp add: same_fields_def register_fields)
  moreover have "\<forall>n'. diff_info md' n' =
           (if n' = n \<and> x # es \<noteq> [] then Some (fold (add_tuple sq) (x # es) (get_dict md n))
            else diff_info md n')"
    using md'(3) g by (auto simp: register_get add_tuple_def get_dict_def)
  ultimately show ?case by blast
qed


section \<open>The loop over a diff\<close>

lemma entries_Cons: "entries ((k, vs) # d) k' = (if k' = k then vs else entries d k')"
  by (simp add: entries_def)

lemma entries_not_key: "k \<notin> set (map fst d) \<Longrightarrow> entries d k = []"
proof -
  assume "k \<notin> set (map fst d)"
  then have "map_of d k = None" by (simp add: map_of_eq_None_iff)
  then show ?thesis by (simp add: entries_def)
qed

lemma entries_member: "distinct (map fst d) \<Longrightarrow> (k, vs) \<in> set d \<Longrightarrow> entries d k = vs"
  by (simp add: entries_def)

lemma parse_groups_spec:
  assumes "distinct (map fst ld)" and "\<forall>g\<in>set ld. \<forall>x\<in>set (snd g). tagged (fst x)"
  shows "\<exists>md'. fold_err (parse_group e sq) ld md = Inr md' \<and> same_fields md md'
     \<and> (\<forall>n. diff_info md' n =
           (if entries ld n = [] then diff_info md n
            else Some (fold (add_tuple sq) (entries ld n) (get_dict md n))))"
  using assms
proof (induction ld arbitrary: md)
  case Nil
  then show ?case by (simp add: same_fields_def entries_def)
next
  case (Cons a ld)
  obtain n0 es0 where a: "a = (n0, es0)" by (cases a)
  have t0: "\<forall>x\<in>set es0. tagged (fst x)" using Cons.prems(2) a by auto
  from parse_group_spec [OF t0, of e sq n0 md] obtain md1 where
    md1: "fold_err (parse_entry e sq n0) es0 md = Inr md1" "same_fields md md1"
      "\<forall>n'. diff_info md1 n' =
           (if n' = n0 \<and> es0 \<noteq> [] then Some (fold (add_tuple sq) es0 (get_dict md n0))
            else diff_info md n')" by blast
  have d: "distinct (map fst ld)" and t: "\<forall>g\<in>set ld. \<forall>x\<in>set (snd g). tagged (fst x)"
    using Cons.prems by auto
  from Cons.IH [OF d t, of md1] obtain md' where
    md': "fold_err (parse_group e sq) ld md1 = Inr md'" "same_fields md1 md'"
      "\<forall>n. diff_info md' n =
           (if entries ld n = [] then diff_info md1 n
            else Some (fold (add_tuple sq) (entries ld n) (get_dict md1 n)))" by blast
  have n0: "entries ld n0 = []" using Cons.prems(1) a by (simp add: entries_not_key)
  have "fold_err (parse_group e sq) (a # ld) md = Inr md'"
    using md1(1) md'(1) a by (simp add: parse_group_def)
  moreover have "same_fields md md'" using md1(2) md'(2) by (simp add: same_fields_def)
  moreover have "diff_info md' n =
           (if entries (a # ld) n = [] then diff_info md n
            else Some (fold (add_tuple sq) (entries (a # ld) n) (get_dict md n)))" for n
  proof (cases "n = n0")
    case True
    then show ?thesis using md'(3) md1(3) n0 a by (simp add: entries_Cons)
  next
    case False
    then have "diff_info md1 n = diff_info md n" using md1(3) by simp
    then have "get_dict md1 n = get_dict md n" by (simp add: get_dict_def)
    then show ?thesis using md'(3) md1(3) False a by (simp add: entries_Cons)
  qed
  ultimately show ?case by blast
qed

lemma norm_loop_append:
  "norm_loop fn i (s @ t) st = norm_loop fn (i + length s) t (norm_loop fn i s st)"
  by (induction s arbitrary: i st) auto

lemma norm_loop_snoc:
  "norm_loop fn 0 (s @ [line]) st = norm_step fn (length s) line (norm_loop fn 0 s st)"
  by (simp add: norm_loop_append)

lemma line_no_at_snoc: "i \<le> length s \<Longrightarrow> line_no_at (s @ [line]) i = line_no_at s i"
  by (simp add: line_no_at_def)

lemma line_no_at_end: "line_no_at s (length s) = 1 + int (length (filter is_base_line s))"
  by (simp add: line_no_at_def)

lemma records_of_snoc:
  "records_of fn (s @ [line]) =
     records_of fn s @ (if tagged line then [(line_no_at s (length s), line, fn)] else [])"
proof -
  have f: "filter (\<lambda>i. tagged ((s @ [line]) ! i)) [0..<length s] = filter (\<lambda>i. tagged (s ! i)) [0..<length s]"
    by (rule filter_cong [OF refl]) (simp add: nth_append)
  have m: "map (\<lambda>i. (line_no_at (s @ [line]) i, (s @ [line]) ! i, fn)) (filter (\<lambda>i. tagged (s ! i)) [0..<length s])
      = map (\<lambda>i. (line_no_at s i, s ! i, fn)) (filter (\<lambda>i. tagged (s ! i)) [0..<length s])"
    by (rule map_cong [OF refl]) (simp add: nth_append line_no_at_snoc)
  show ?thesis
    by (simp add: records_of_def f m line_no_at_snoc)
qed

lemma records_at_snoc:
  "records_at fn (s @ [line]) n =
     records_at fn s n @ (if tagged line \<and> line_no_at s (length s) = n then [(line, fn)] else [])"
  by (simp add: records_at_def records_of_snoc)

lemma tagged_cases:
  "startswith l PLUS \<Longrightarrow> tagged l \<and> is_base_line l \<and> \<not> startswith l QUESTIONMARK"
  "startswith l MINUS \<Longrightarrow>
     tagged l \<and> \<not> is_base_line l \<and> \<not> startswith l QUESTIONMARK \<and> \<not> startswith l PLUS"
  "startswith l QUESTIONMARK \<Longrightarrow> \<not> tagged l \<and> \<not> is_base_line l"
  "\<not> startswith l QUESTIONMARK \<Longrightarrow> \<not> startswith l PLUS \<Longrightarrow> \<not> startswith l MINUS
     \<Longrightarrow> \<not> tagged l \<and> is_base_line l"
  by (cases l; auto simp: tagged_def is_base_line_def char_consts)+

lemma norm_loop_inv:
  "offset (norm_loop fn 0 s norm_init) = 1 + int (length (filter is_base_line s)) - int (length s)
   \<and> (\<forall>n. entries (local_diff (norm_loop fn 0 s norm_init)) n = records_at fn s n)
   \<and> distinct (map fst (local_diff (norm_loop fn 0 s norm_init)))"
proof (induction s rule: rev_induct)
  case Nil
  then show ?case by (simp add: norm_init_def entries_def records_at_def records_of_def)
next
  case (snoc line s)
  let ?st = "norm_loop fn 0 s norm_init"
  have k: "int (length s) + offset ?st = line_no_at s (length s)"
    using snoc by (simp add: line_no_at_end)
  consider (q) "startswith line QUESTIONMARK" | (p) "startswith line PLUS"
    | (m) "startswith line MINUS"
    | (c) "\<not> startswith line QUESTIONMARK" "\<not> startswith line PLUS" "\<not> startswith line MINUS"
    by blast
  then show ?case
  proof cases
    case q
    then show ?thesis using snoc tagged_cases(3) [OF q]
      by (simp add: norm_loop_snoc norm_step_def records_at_snoc)
  next
    case p
    then show ?thesis using snoc tagged_cases(1) [OF p] k
      by (simp add: norm_loop_snoc norm_step_def records_at_snoc entries_setdefault_append
          distinct_setdefault_append)
  next
    case m
    then show ?thesis using snoc tagged_cases(2) [OF m] k
      by (simp add: norm_loop_snoc norm_step_def records_at_snoc entries_setdefault_append
          distinct_setdefault_append)
  next
    case c
    then show ?thesis using snoc tagged_cases(4) [OF c]
      by (simp add: norm_loop_snoc norm_step_def records_at_snoc)
  qed
qed

lemma records_at_tagged: "x \<in> set (records_at fn s n) \<Longrightarrow> tagged (fst x) \<and> snd x = fn \<and> 1 \<le> n"
  by (auto simp: records_at_def records_of_def line_no_at_def)

lemma add_file_spec:
  "\<exists>md'. add_file e (path, s) md = Inr md' \<and> same_fields md md'
     \<and> (\<forall>n. diff_info md' n =
           (if records_at (basename path) s n = [] then diff_info md n
            else Some (fold (add_tuple (squigly_dict (norm_loop (basename path) 0 s norm_init)))
                         (records_at (basename path) s n) (get_dict md n))))"
proof -
  let ?st = "norm_loop (basename path) 0 s norm_init"
  have inv: "\<forall>n. entries (local_diff ?st) n = records_at (basename path) s n"
    "distinct (map fst (local_diff ?st))"
    using norm_loop_inv [of "basename path" s] by auto
  have t: "\<forall>g\<in>set (local_diff ?st). \<forall>x\<in>set (snd g). tagged (fst x)"
  proof (intro ballI)
    fix g x assume g: "g \<in> set (local_diff ?st)" and x: "x \<in> set (snd g)"
    have "entries (local_diff ?st) (fst g) = snd g"
      using inv(2) g by (cases g) (simp add: entries_member)
    then have "x \<in> set (records_at (basename path) s (fst g))" using x inv(1) by simp
    then show "tagged (fst x)" by (simp add: records_at_tagged)
  qed
  from parse_groups_spec [OF inv(2) t, of e "squigly_dict ?st" md]
  show ?thesis using inv(1) by (simp add: add_file_def Let_def cong: if_cong)
qed


text \<open>
  The second loop of \<^verbatim>\<open>multidiff\<close> visits the line numbers of \<^verbatim>\<open>local_diff\<close> in the
  order of the dictionary, which the model takes to be the order of insertion. Any other
  order leaves the same \<^verbatim>\<open>diff_info\<close>.
\<close>

lemma parse_groups_order:
  assumes "mset ld' = mset ld" and "distinct (map fst ld)"
    and "\<forall>g\<in>set ld. \<forall>x\<in>set (snd g). tagged (fst x)"
  shows "\<exists>md1 md2. fold_err (parse_group e sq) ld md = Inr md1
           \<and> fold_err (parse_group e sq) ld' md = Inr md2
           \<and> (\<forall>n. diff_info md2 n = diff_info md1 n) \<and> same_fields md1 md2"
proof -
  have s: "set ld' = set ld" using assms(1) by (rule mset_eq_setD)
  have "mset (map fst ld') = mset (map fst ld)" using assms(1) by simp
  then have d: "distinct (map fst ld')" using assms(2) by (metis mset_eq_imp_distinct_iff)
  have "map_of ld' = map_of ld" using d assms(2) s by (simp add: map_of_inject_set)
  then have en: "entries ld' n = entries ld n" for n by (simp add: entries_def)
  have t: "\<forall>g\<in>set ld'. \<forall>x\<in>set (snd g). tagged (fst x)" using assms(3) s by simp
  from parse_groups_spec [OF assms(2,3), of e sq md] obtain md1 where
    md1: "fold_err (parse_group e sq) ld md = Inr md1" "same_fields md md1"
      "\<forall>n. diff_info md1 n = (if entries ld n = [] then diff_info md n
                                else Some (fold (add_tuple sq) (entries ld n) (get_dict md n)))"
    by blast
  from parse_groups_spec [OF d t, of e sq md] obtain md2 where
    md2: "fold_err (parse_group e sq) ld' md = Inr md2" "same_fields md md2"
      "\<forall>n. diff_info md2 n = (if entries ld' n = [] then diff_info md n
                                else Some (fold (add_tuple sq) (entries ld' n) (get_dict md n)))"
    by blast
  have "\<forall>n. diff_info md2 n = diff_info md1 n" using md1(3) md2(3) en by simp
  moreover have "same_fields md1 md2" using md1(2) md2(2) by (simp add: same_fields_def)
  ultimately show ?thesis using md1(1) md2(1) by blast
qed


section \<open>What every multi-diff built by \<^verbatim>\<open>multidiff\<close> satisfies\<close>

lemma wf_dict_setdefault_append:
  "wf_dict d \<Longrightarrow> fst t \<noteq> [] \<Longrightarrow> wf_dict (setdefault_append k t d)"
proof (induction d)
  case Nil
  then show ?case by (simp add: wf_dict_def)
next
  case (Cons a d)
  obtain k' vs where a: "a = (k', vs)" by (cases a)
  have "wf_dict d" using Cons.prems(1) by (simp add: wf_dict_def)
  then have "wf_dict (setdefault_append k t d)" using Cons by simp
  then show ?case using Cons.prems a by (auto simp: wf_dict_def)
qed

lemma wf_dict_fold:
  "wf_dict d \<Longrightarrow> \<forall>x\<in>set es. tagged (fst x) \<Longrightarrow> wf_dict (fold (add_tuple sq) es d)"
proof (induction es arbitrary: d)
  case Nil
  then show ?case by simp
next
  case (Cons x es)
  have "tagged (fst x)" using Cons.prems(2) by simp
  then have "fst (entry_tuple sq x) \<noteq> []" using tagged_rstrip [of "fst x"] by (auto simp: entry_tuple_def)
  then have "wf_dict (add_tuple sq x d)"
    using Cons.prems(1) by (simp add: add_tuple_def wf_dict_setdefault_append)
  then show ?case using Cons by simp
qed

lemma fold_add_tuple_not_Nil: "es \<noteq> [] \<Longrightarrow> fold (add_tuple sq) es d \<noteq> []"
  by (cases es rule: rev_cases) (simp_all add: add_tuple_def setdefault_append_not_Nil)

lemma entries_fold_add_tuple:
  "entries (fold (add_tuple sq) es d) key
     = entries d key @ map (entry_tuple sq) (filter (\<lambda>x. hd (fst x) = key) es)"
  by (induction es arbitrary: d) (auto simp: add_tuple_def entries_setdefault_append)

lemma wf_dict_Nil: "wf_dict []"
  by (simp add: wf_dict_def)

lemma wf_info_get_dict: "wf_info md \<Longrightarrow> wf_dict (get_dict md n)"
  by (auto simp: wf_info_def get_dict_def wf_dict_Nil split: option.splits)

lemma add_file_inv:
  assumes "add_file e (path, s) md = Inr md'"
  shows "(wf_info md \<longrightarrow> wf_info md') \<and> (pos_info md \<longrightarrow> pos_info md') \<and> same_fields md md'"
proof -
  let ?fn = "basename path"
  let ?sq = "squigly_dict (norm_loop ?fn 0 s norm_init)"
  from add_file_spec [of e path s md] assms have
    sf: "same_fields md md'" and
    di: "\<forall>n. diff_info md' n =
           (if records_at ?fn s n = [] then diff_info md n
            else Some (fold (add_tuple ?sq) (records_at ?fn s n) (get_dict md n)))"
    by auto
  have "wf_info md'" if w: "wf_info md"
    unfolding wf_info_def
  proof (intro allI impI)
    fix n d assume d: "diff_info md' n = Some d"
    show "d \<noteq> [] \<and> wf_dict d"
    proof (cases "records_at ?fn s n = []")
      case True
      then show ?thesis using d di w by (simp add: wf_info_def)
    next
      case False
      then have "d = fold (add_tuple ?sq) (records_at ?fn s n) (get_dict md n)"
        using d di by simp
      moreover have "\<forall>x\<in>set (records_at ?fn s n). tagged (fst x)"
        by (simp add: records_at_tagged)
      ultimately show ?thesis
        using False wf_info_get_dict [OF w, of n] by (simp add: fold_add_tuple_not_Nil wf_dict_fold)
    qed
  qed
  moreover have "pos_info md'" if p: "pos_info md"
    unfolding pos_info_def
  proof (intro allI impI)
    fix n d assume d: "diff_info md' n = Some d"
    show "1 \<le> n"
    proof (cases "records_at ?fn s n = []")
      case True
      then show ?thesis using d di p by (simp add: pos_info_def)
    next
      case False
      then obtain x where "x \<in> set (records_at ?fn s n)" by (cases "records_at ?fn s n") auto
      then show ?thesis by (simp add: records_at_tagged)
    qed
  qed
  ultimately show ?thesis using sf by blast
qed

lemma fold_add_file:
  "\<exists>md'. fold_err (add_file e) fds md = Inr md' \<and> (wf_info md \<longrightarrow> wf_info md')
     \<and> (pos_info md \<longrightarrow> pos_info md') \<and> same_fields md md'"
proof (induction fds arbitrary: md)
  case Nil
  then show ?case by (simp add: same_fields_def)
next
  case (Cons f fds)
  obtain path s where f: "f = (path, s)" by (cases f)
  from add_file_spec [of e path s md] obtain md1 where md1: "add_file e (path, s) md = Inr md1"
    by blast
  note i1 = add_file_inv [OF md1]
  from Cons.IH [of md1] obtain md' where
    md': "fold_err (add_file e) fds md1 = Inr md'" "wf_info md1 \<longrightarrow> wf_info md'"
      "pos_info md1 \<longrightarrow> pos_info md'" "same_fields md1 md'" by blast
  have "fold_err (add_file e) (f # fds) md = Inr md'" using md1 md'(1) f by simp
  moreover have "same_fields md md'" using i1 md'(4) by (simp add: same_fields_def)
  ultimately show ?case using i1 md' by blast
qed

lemma build_ok:
  "\<exists>md. build e base lines fds col = Inr md \<and> wf_info md \<and> pos_info md
     \<and> colored md = col \<and> files md = map fst fds \<and> base_lines md = lines
     \<and> base_fn md = basename base"
proof -
  let ?md0 = "init (basename base) lines (map fst fds) col"
  have "wf_info ?md0" "pos_info ?md0" by (simp_all add: wf_info_def pos_info_def init_def)
  with fold_add_file [of e fds ?md0] show ?thesis
    by (auto simp: build_def same_fields_def init_def)
qed


section \<open>The groups of a line\<close>

lemma set_add_props: "set (set_add x xs) = insert x (set xs)" "distinct xs \<Longrightarrow> distinct (set_add x xs)"
  by (auto simp: set_add_def)

lemma sources_snoc: "sources (ts @ [t]) l = sources ts l @ (if fst t = l then [fst (snd t)] else [])"
  by (simp add: sources_def)

lemma collect_step_ok:
  assumes "groups_ok ts g"
  shows "\<exists>g'. collect_step t g = Inr g' \<and> groups_ok (ts @ [t]) g'"
proof -
  obtain lines cd sd where g: "g = (lines, cd, sd)" by (cases g)
  obtain dl meta sq where t: "t = (dl, meta, sq)" by (cases t)
  let ?sd' = "if sq \<noteq> [] then sd(dl \<mapsto> (case sd dl of None \<Rightarrow> sq | Some old \<Rightarrow> mergeHighlight_spec sq old)) else sd"
  let ?fs0 = "case cd dl of None \<Rightarrow> [] | Some fs \<Rightarrow> fs"
  let ?g' = "(set_add dl lines, cd(dl \<mapsto> set_add meta ?fs0), ?sd')"
  have step: "collect_step t g = Inr ?g'"
    by (simp add: collect_step_def g t merge_squigly_eq split: option.splits)
  have a: "distinct lines" "set lines = fst ` set ts" "\<forall>l. l \<notin> fst ` set ts \<longrightarrow> cd l = None"
    "\<forall>l\<in>fst ` set ts. \<exists>fs. cd l = Some fs \<and> distinct fs \<and> set fs = set (sources ts l)"
    using assms by (auto simp: groups_ok_def g)
  have fs0: "distinct ?fs0 \<and> set ?fs0 = set (sources ts dl)"
  proof (cases "dl \<in> fst ` set ts")
    case True
    then show ?thesis using a(4) by auto
  next
    case False
    then have "cd dl = None" using a(3) by simp
    moreover have "sources ts dl = []" using False by (auto simp: sources_def filter_empty_conv)
    ultimately show ?thesis by simp
  qed
  have "groups_ok (ts @ [t]) ?g'"
    unfolding groups_ok_def prod.case
  proof (intro conjI allI impI ballI)
    show "distinct (set_add dl lines)" using a(1) by (simp add: set_add_props)
    show "set (set_add dl lines) = fst ` set (ts @ [t])" using a(2) by (auto simp: set_add_props t)
  next
    fix l assume "l \<notin> fst ` set (ts @ [t])"
    then show "(cd(dl \<mapsto> set_add meta ?fs0)) l = None" using a(3) by (auto simp: t)
  next
    fix l assume l: "l \<in> fst ` set (ts @ [t])"
    show "\<exists>fs. (cd(dl \<mapsto> set_add meta ?fs0)) l = Some fs \<and> distinct fs \<and> set fs = set (sources (ts @ [t]) l)"
    proof (cases "l = dl")
      case True
      then show ?thesis using fs0 by (simp add: set_add_props sources_snoc t)
    next
      case False
      then have "l \<in> fst ` set ts" using l by (auto simp: t)
      then obtain fs where "cd l = Some fs \<and> distinct fs \<and> set fs = set (sources ts l)"
        using a(4) by blast
      then show ?thesis using False by (simp add: sources_snoc t)
    qed
  qed
  then show ?thesis using step by blast
qed

lemma fold_collect_ok:
  "groups_ok ts0 g \<Longrightarrow> \<exists>g'. fold_err collect_step ts g = Inr g' \<and> groups_ok (ts0 @ ts) g'"
proof (induction ts arbitrary: ts0 g)
  case Nil
  then show ?case by simp
next
  case (Cons t ts)
  from collect_step_ok [OF Cons.prems, of t] obtain g1 where
    g1: "collect_step t g = Inr g1" "groups_ok (ts0 @ [t]) g1" by blast
  from Cons.IH [OF g1(2)] g1(1) show ?case by simp
qed

lemma collect_ok: "\<exists>g. collect ts = Inr g \<and> groups_ok ts g"
proof -
  have "groups_ok [] ([], Map.empty, Map.empty)" by (simp add: groups_ok_def)
  from fold_collect_ok [OF this, of ts] show ?thesis by (simp add: collect_def)
qed

lemma groups_ok_count:
  "groups_ok ts (lines, cd, sd) \<Longrightarrow> l \<in> fst ` set ts \<Longrightarrow>
   \<exists>fs. cd l = Some fs \<and> length fs = variant_count ts l"
  by (auto simp: groups_ok_def variant_count_def distinct_card [symmetric])

lemma order_ok_props:
  assumes "order_ok e"
  shows "set (set_order e xs) = set xs" "length (set_order e xs) = length xs"
    "distinct (set_order e xs) = distinct xs"
proof -
  have m: "mset (set_order e xs) = mset xs" using assms by (simp add: order_ok_def)
  show "set (set_order e xs) = set xs" using m by (rule mset_eq_setD)
  show "length (set_order e xs) = length xs" using m by (rule mset_eq_length)
  show "distinct (set_order e xs) = distinct xs" using m by (metis mset_eq_imp_distinct_iff)
qed

lemma sorted_take_drop:
  assumes "sorted (map f ys)"
  shows "\<forall>a\<in>set (take k ys). \<forall>b\<in>set (drop k ys). f a \<le> f b"
proof -
  have "sorted (map f (take k ys) @ map f (drop k ys))"
    using assms by (simp flip: map_append)
  then show ?thesis by (auto simp: sorted_append)
qed

lemma select_lines_ok:
  assumes "order_ok e" and "groups_ok ts (lines, cd, sd)"
  shows "\<exists>sel. select_lines e lines cd = Inr sel
     \<and> sorted (map (variant_count ts) sel)
     \<and> length sel = min MAX_DIFF_GROUPS (card (fst ` set ts))
     \<and> distinct sel \<and> set sel \<subseteq> fst ` set ts
     \<and> (\<forall>a\<in>set sel. \<forall>b\<in>fst ` set ts - set sel. variant_count ts a \<le> variant_count ts b)"
proof -
  let ?xs = "set_order e lines"
  let ?f = "\<lambda>l. length (the (cd l))"
  let ?ys = "sort_key ?f ?xs"
  let ?sel = "take MAX_DIFF_GROUPS ?ys"
  have l: "distinct lines" "set lines = fst ` set ts" using assms(2) by (auto simp: groups_ok_def)
  have c: "length lines = card (fst ` set ts)" using distinct_card [OF l(1)] l(2) by simp
  have xs: "set ?xs = fst ` set ts" "distinct ?xs" "length ?xs = card (fst ` set ts)"
    using order_ok_props [OF assms(1), of lines] l c by auto
  have f: "?f a = variant_count ts a" if "a \<in> fst ` set ts" for a
    using groups_ok_count [OF assms(2) that] by auto
  have nokey: "\<not> list_ex (\<lambda>l. cd l = None) ?xs"
    using xs(1) assms(2) by (auto simp: list_ex_iff groups_ok_def)
  then have sel: "select_lines e lines cd = Inr ?sel" by (simp add: select_lines_def)
  have sub: "set ?sel \<subseteq> fst ` set ts" using xs(1) set_take_subset [of MAX_DIFF_GROUPS ?ys] by auto
  have srt: "sorted (map ?f ?ys)" by simp
  have "sorted (take MAX_DIFF_GROUPS (map ?f ?ys))" using srt by (rule sorted_wrt_take)
  then have s0: "sorted (map ?f ?sel)" by (simp only: take_map)
  have fv: "map ?f ?sel = map (variant_count ts) ?sel"
  proof (rule map_cong [OF refl])
    fix a assume "a \<in> set ?sel"
    then have "a \<in> fst ` set ts" using sub by blast
    then show "?f a = variant_count ts a" by (rule f)
  qed
  have s1: "sorted (map (variant_count ts) ?sel)" using s0 unfolding fv .
  have s2: "length ?sel = min MAX_DIFF_GROUPS (card (fst ` set ts))" using xs(3) by simp
  have s3: "distinct ?sel" using xs(2) by simp
  have rest: "fst ` set ts - set ?sel \<subseteq> set (drop MAX_DIFF_GROUPS ?ys)"
  proof -
    have "set ?ys = set ?sel \<union> set (drop MAX_DIFF_GROUPS ?ys)"
      by (metis append_take_drop_id set_append)
    then show ?thesis using xs(1) by auto
  qed
  have s5: "\<forall>a\<in>set ?sel. \<forall>b\<in>fst ` set ts - set ?sel. variant_count ts a \<le> variant_count ts b"
  proof (intro ballI)
    fix a b assume a: "a \<in> set ?sel" and b: "b \<in> fst ` set ts - set ?sel"
    have b': "b \<in> set (drop MAX_DIFF_GROUPS ?ys)" using b rest by blast
    have "?f a \<le> ?f b" using sorted_take_drop [OF srt, of MAX_DIFF_GROUPS] a b' by blast
    moreover have "?f a = variant_count ts a" using a sub by (intro f) blast
    moreover have "?f b = variant_count ts b" using b by (intro f) blast
    ultimately show "variant_count ts a \<le> variant_count ts b" by simp
  qed
  show ?thesis using sel s1 s2 s3 sub s5 by blast
qed


section \<open>Rendering never raises on a multi-diff that was built\<close>

lemma colorize_ok: "l \<noteq> [] \<Longrightarrow> \<exists>c. colorize col l sq = Inr c"
  by (cases l) (auto simp: colorize_def split: prod.splits)

lemma int_log10_ok: "1 \<le> n \<Longrightarrow> int_log10 e n = Inr (trunc_log10 e n)"
  by (simp add: int_log10_def)

lemma render_group_ok:
  assumes "cd l = Some fs" and "l \<noteq> []" and "1 \<le> n"
  shows "\<exists>ctext rest.
           render_group e md n cd sd l
             = Inr (join '' '' ([str_int n @ '' '' @ ctext, file_count (length fs) (length (files md))]
                                @ (if length fs \<noteq> length (files md)
                                   then [join '', '' (set_order e fs)] else [])) # rest)"
proof -
  obtain c where c: "colorize (colored md) l (case sd l of None \<Rightarrow> [] | Some s \<Rightarrow> s) = Inr c"
    using colorize_ok [OF assms(2)] by blast
  let ?first = "join '' '' ([str_int n @ '' '' @ c, file_count (length fs) (length (files md))]
                                @ (if length fs \<noteq> length (files md)
                                   then [join '', '' (set_order e fs)] else []))"
  let ?sq = "case sd l of None \<Rightarrow> [] | Some s \<Rightarrow> s"
  have r: "render_group e md n cd sd l
      = Inr (?first # (if \<not> colored md \<and> ?sq \<noteq> []
                       then [replicate (nat (2 + trunc_log10 e n)) (CHR '' '') @ ?sq]
                       else []))"
    using assms(1) c int_log10_ok [OF assms(3), of e]
    by (simp add: render_group_def Let_def del: join.simps)
  show ?thesis unfolding r by blast
qed

lemma concat_err_ok: "\<forall>r\<in>set rs. \<exists>x. r = Inr x \<Longrightarrow> \<exists>out. concat_err rs = Inr out"
  by (induction rs) auto

lemma concat_err_Nil_iff: "\<forall>r\<in>set rs. r = Inr [] \<Longrightarrow> concat_err rs = Inr []"
  by (induction rs) auto

lemma selected_spec:
  assumes "order_ok e"
  shows "\<exists>lines sel cd sd. selected e ts = Inr (sel, cd, sd) \<and> groups_ok ts (lines, cd, sd)
     \<and> sorted (map (variant_count ts) sel)
     \<and> length sel = min MAX_DIFF_GROUPS (card (fst ` set ts))
     \<and> distinct sel \<and> set sel \<subseteq> fst ` set ts
     \<and> (\<forall>a\<in>set sel. \<forall>b\<in>fst ` set ts - set sel. variant_count ts a \<le> variant_count ts b)"
proof -
  obtain lines cd sd where g: "collect ts = Inr (lines, cd, sd)" "groups_ok ts (lines, cd, sd)"
    using collect_ok [of ts] by (metis prod_cases3)
  from select_lines_ok [OF assms g(2)] obtain sel where
    sel: "select_lines e lines cd = Inr sel" "sorted (map (variant_count ts) sel)"
      "length sel = min MAX_DIFF_GROUPS (card (fst ` set ts))"
      "distinct sel" "set sel \<subseteq> fst ` set ts"
      "\<forall>a\<in>set sel. \<forall>b\<in>fst ` set ts - set sel. variant_count ts a \<le> variant_count ts b"
    by blast
  have "selected e ts = Inr (sel, cd, sd)" using g(1) sel(1) by (simp add: selected_def)
  then show ?thesis using g(2) sel by blast
qed

lemma selected_Nil: "order_ok e \<Longrightarrow> \<exists>cd sd. selected e [] = Inr ([], cd, sd)"
  using selected_spec [of e "[]"] by auto

lemma get_key_lines_Nil:
  "order_ok e \<Longrightarrow> tuples_of d key = [] \<Longrightarrow> get_key_lines e md n d key = Inr []"
  using selected_Nil [of e] by (auto simp: get_key_lines_def)

lemma get_key_lines_ok:
  assumes "order_ok e" and "\<forall>t\<in>set (tuples_of d key). fst t \<noteq> []"
    and "tuples_of d key \<noteq> [] \<longrightarrow> 1 \<le> n"
  shows "\<exists>out. get_key_lines e md n d key = Inr out"
proof -
  let ?ts = "tuples_of d key"
  from selected_spec [OF assms(1), of ?ts] obtain lines sel cd sd where
    s: "selected e ?ts = Inr (sel, cd, sd)" "groups_ok ?ts (lines, cd, sd)"
      "set sel \<subseteq> fst ` set ?ts" by blast
  have "\<forall>r\<in>set (map (render_group e md n cd sd) sel). \<exists>x. r = Inr x"
  proof
    fix r assume "r \<in> set (map (render_group e md n cd sd) sel)"
    then obtain l where l: "l \<in> set sel" "r = render_group e md n cd sd l" by auto
    then have lt: "l \<in> fst ` set ?ts" using s(3) by blast
    then obtain fs where "cd l = Some fs" using s(2) by (auto simp: groups_ok_def)
    moreover have "l \<noteq> []" using lt assms(2) by auto
    moreover have "1 \<le> n" using lt assms(3) by auto
    ultimately show "\<exists>x. r = Inr x" using render_group_ok [of cd l fs n e md sd] l(2) by auto
  qed
  from concat_err_ok [OF this] show ?thesis using s(1) by (simp add: get_key_lines_def)
qed

lemma tuples_of_member: "tuples_of d key \<noteq> [] \<Longrightarrow> (key, tuples_of d key) \<in> set d"
  by (auto simp: tuples_of_def split: option.splits dest: map_of_SomeD)

lemma get_line_ok:
  assumes "order_ok e" and "wf_info md" and "pos_info md"
  shows "\<exists>out. get_line e md n = Inr out"
proof -
  let ?d = "get_dict md n"
  have k: "\<exists>out. get_key_lines e md n ?d key = Inr out" for key
  proof (rule get_key_lines_ok [OF assms(1)])
    show "\<forall>t\<in>set (tuples_of ?d key). fst t \<noteq> []"
    proof (cases "tuples_of ?d key = []")
      case True
      then show ?thesis by simp
    next
      case False
      from tuples_of_member [OF this] wf_info_get_dict [OF assms(2), of n]
      show ?thesis by (auto simp: wf_dict_def)
    qed
    show "tuples_of ?d key \<noteq> [] \<longrightarrow> 1 \<le> n"
    proof
      assume "tuples_of ?d key \<noteq> []"
      then have "?d \<noteq> []" by (auto simp: tuples_of_def)
      then obtain d where "diff_info md n = Some d" by (auto simp: get_dict_def split: option.splits)
      then show "1 \<le> n" using assms(3) by (auto simp: pos_info_def)
    qed
  qed
  have "\<forall>r\<in>set (map (get_key_lines e md n ?d) [MINUS, PLUS]). \<exists>x. r = Inr x"
    using k by auto
  from concat_err_ok [OF this] show ?thesis by (auto simp: get_line_def Let_def)
qed

lemma get_line_empty:
  assumes "order_ok e" and "get_dict md n = []"
  shows "get_line e md n = Inr []"
proof -
  have "tuples_of [] key = []" for key by (simp add: tuples_of_def)
  then have "get_key_lines e md n [] key = Inr []" for key
    using get_key_lines_Nil [OF assms(1)] by simp
  then show ?thesis using assms(2) by (simp add: get_line_def Let_def)
qed

lemma num_records_0_iff: "wf_info md \<Longrightarrow> num_records md n = 0 \<longleftrightarrow> get_dict md n = []"
proof -
  assume w: "wf_info md"
  have "num_records md n \<noteq> 0" if ne: "get_dict md n \<noteq> []"
  proof -
    obtain g d where g: "get_dict md n = g # d" using ne by (cases "get_dict md n") auto
    have "wf_dict (get_dict md n)" using w by (rule wf_info_get_dict)
    then have "snd g \<noteq> []" using g by (simp add: wf_dict_def)
    then show ?thesis by (simp add: num_records_def g)
  qed
  then show ?thesis by (auto simp: num_records_def)
qed

lemma fold_str_step_ok:
  assumes "\<forall>n. \<exists>out. get_line e md n = Inr out"
  shows "\<exists>st'. fold_err (str_step e md) is st = Inr st'"
proof (induction "is" arbitrary: st)
  case Nil
  then show ?case by simp
next
  case (Cons i "is")
  obtain ls where "get_line e md (int i) = Inr ls" using assms by blast
  then have "\<exists>st1. str_step e md i st = Inr st1" by (auto simp: str_step_def Let_def)
  then obtain st1 where "str_step e md i st = Inr st1" by blast
  then show ?case using Cons [of st1] by simp
qed

lemma to_str_ok:
  assumes "\<forall>n. \<exists>out. get_line e md n = Inr out"
  shows "\<exists>out. to_str e md = Inr out"
proof -
  let ?o = "[''Comparing '' @ color_line (colored md) (base_fn md) PURPLE @ '' with ''
               @ join '', '' (map basename (files md)), replicate SEP_WIDTH (CHR ''='')]"
  obtain st' where "fold_err (str_step e md) [0..<length (base_lines md)] (?o, False) = Inr st'"
    using fold_str_step_ok [OF assms] by blast
  then show ?thesis by (cases st') (simp add: to_str_def Let_def)
qed


section \<open>Where the records of a diff are registered\<close>

lemma nth_filter_take:
  assumes "i < length s" and "P (s ! i)"
  shows "length (filter P (take i s)) < length (filter P s)
         \<and> filter P s ! length (filter P (take i s)) = s ! i"
proof -
  have "s = take i s @ s ! i # drop (Suc i) s" using assms(1) by (rule id_take_nth_drop)
  then have "filter P s = filter P (take i s) @ s ! i # filter P (drop (Suc i) s)"
    using assms(2) by (metis filter.simps(2) filter_append)
  then show ?thesis by (simp add: nth_append)
qed

lemma records_of_member:
  "i < length s \<Longrightarrow> tagged (s ! i) \<Longrightarrow> (line_no_at s i, s ! i, fn) \<in> set (records_of fn s)"
  by (auto simp: records_of_def)

lemma add_file_tuples:
  "\<exists>md'. add_file e (path, s) md = Inr md'
     \<and> (\<forall>n key. tuples_of (get_dict md' n) key =
           tuples_of (get_dict md n) key
           @ map (entry_tuple (squigly_dict (norm_loop (basename path) 0 s norm_init)))
               (filter (\<lambda>x. hd (fst x) = key) (records_at (basename path) s n)))"
proof -
  let ?sq = "squigly_dict (norm_loop (basename path) 0 s norm_init)"
  let ?r = "records_at (basename path) s"
  from add_file_spec [of e path s md] obtain md' where
    md': "add_file e (path, s) md = Inr md'"
      "\<forall>n. diff_info md' n = (if ?r n = [] then diff_info md n
                                else Some (fold (add_tuple ?sq) (?r n) (get_dict md n)))"
    by blast
  have "tuples_of (get_dict md' n) key =
           tuples_of (get_dict md n) key @ map (entry_tuple ?sq) (filter (\<lambda>x. hd (fst x) = key) (?r n))"
    for n key
  proof (cases "?r n = []")
    case True
    then have "get_dict md' n = get_dict md n" using md'(2) by (simp add: get_dict_def)
    then show ?thesis using True by simp
  next
    case False
    then have "get_dict md' n = fold (add_tuple ?sq) (?r n) (get_dict md n)"
      using md'(2) by (simp add: get_dict_def)
    then show ?thesis by (simp add: tuples_of_entries entries_fold_add_tuple)
  qed
  then show ?thesis using md'(1) by blast
qed

lemma ex_records: "records_at ''f'' [''  a'', ''- x'', ''+ b'', ''  c''] 2 = [(''- x'', ''f''), (''+ b'', ''f'')]"
  "records_at ''f'' [''  a'', ''- x'', ''+ b'', ''  c''] 1 = []"
  "line_no_at [''  a'', ''- x'', ''+ b'', ''  c''] 2 = 2"
  "map (drop 2) (filter is_base_line [''  a'', ''- x'', ''+ b'', ''  c'']) = [''a'', ''b'', ''c'']"
  "entry_tuple (squigly_dict (norm_loop ''f'' 0 [''  a'', ''- x'', ''+ b'', ''  c''] norm_init)) (''- x'', ''f'') = (''- x'', ''f'', [])"
  "entry_tuple (squigly_dict (norm_loop ''f'' 0 [''  a'', ''- x'', ''+ b'', ''  c''] norm_init)) (''+ b'', ''f'') = (''+ b'', ''f'', [])"
  "basename ''f'' = ''f''"
  by code_simp+

text \<open>
  C1, as the code has it. The offset starts at 1, so the loop of \<^verbatim>\<open>multidiff\<close> counts
  the lines of the base from 1. Whatever the diff of a file, \<^verbatim>\<open>multidiff\<close> registers every
  addition and removal of it, in the order of the diff, under one more than the number of
  base lines (context lines and additions) before it, and under its first character as key.
  For an addition of a diff whose base side is the base text, that is the number of the base
  line it shows, counted from 1: the line stands at index \<open>line_no - 1\<close> of the base. For a
  removal it is the number of the base line that the diff has reached there.
\<close>

theorem records_registered_under_base_line_number:
  "(\<exists>md'. add_file e (path, s) md = Inr md'
      \<and> (\<forall>n key. tuples_of (get_dict md' n) key =
            tuples_of (get_dict md n) key
            @ map (entry_tuple (squigly_dict (norm_loop (basename path) 0 s norm_init)))
                (filter (\<lambda>x. hd (fst x) = key) (records_at (basename path) s n))))
   \<and> (i < length s \<and> startswith (s ! i) PLUS \<and> map (drop 2) (filter is_base_line s) = base \<longrightarrow>
        (line_no_at s i, s ! i, fn) \<in> set (records_of fn s)
        \<and> 1 \<le> line_no_at s i \<and> nat (line_no_at s i - 1) < length base
        \<and> base ! nat (line_no_at s i - 1) = drop 2 (s ! i))
   \<and> (i < length s \<and> startswith (s ! i) MINUS \<longrightarrow>
        (line_no_at s i, s ! i, fn) \<in> set (records_of fn s)
        \<and> line_no_at s i = 1 + int (length (filter is_base_line (take i s))))"
proof (intro conjI impI)
  show "\<exists>md'. add_file e (path, s) md = Inr md'
      \<and> (\<forall>n key. tuples_of (get_dict md' n) key =
            tuples_of (get_dict md n) key
            @ map (entry_tuple (squigly_dict (norm_loop (basename path) 0 s norm_init)))
                (filter (\<lambda>x. hd (fst x) = key) (records_at (basename path) s n)))"
    by (rule add_file_tuples)
next
  assume a: "i < length s \<and> startswith (s ! i) PLUS \<and> map (drop 2) (filter is_base_line s) = base"
  then have t: "tagged (s ! i)" "is_base_line (s ! i)" using tagged_cases(1) by auto
  show "(line_no_at s i, s ! i, fn) \<in> set (records_of fn s)"
    using a t(1) by (simp add: records_of_member)
  show "1 \<le> line_no_at s i" by (simp add: line_no_at_def)
  have n: "nat (line_no_at s i - 1) = length (filter is_base_line (take i s))"
    by (simp add: line_no_at_def)
  from nth_filter_take [of i s is_base_line] a t(2)
  have f: "length (filter is_base_line (take i s)) < length (filter is_base_line s)"
    "filter is_base_line s ! length (filter is_base_line (take i s)) = s ! i" by auto
  have b: "base = map (drop 2) (filter is_base_line s)" using a by simp
  show "nat (line_no_at s i - 1) < length base" unfolding n b using f(1) by simp
  show "base ! nat (line_no_at s i - 1) = drop 2 (s ! i)" unfolding n b using f by simp
next
  assume a: "i < length s \<and> startswith (s ! i) MINUS"
  then have t: "tagged (s ! i)" using tagged_cases(2) by auto
  show "(line_no_at s i, s ! i, fn) \<in> set (records_of fn s)"
    using a t by (simp add: records_of_member)
  show "line_no_at s i = 1 + int (length (filter is_base_line (take i s)))"
    by (simp add: line_no_at_def)
qed

text \<open>
  For the base \<open>a, b, c\<close> and the file \<open>a, x, c\<close> the removal of \<open>x\<close> and the addition of
  \<open>b\<close> are registered under line number 2 and line number 1 gets nothing;
  \<^verbatim>\<open>get_line(2)\<close> renders both with the file-count 1/1, without file names, and ends with
  the separator.
\<close>

theorem records_registered_under_base_line_number_witness:
  "(\<exists>md'. add_file example_env (''f'', [''  a'', ''- x'', ''+ b'', ''  c''])
             (init ''base'' [''a'', ''b'', ''c''] [''f''] False) = Inr md'
      \<and> tuples_of (get_dict md' 2) MINUS = [(''- x'', ''f'', [])]
      \<and> tuples_of (get_dict md' 2) PLUS = [(''+ b'', ''f'', [])]
      \<and> tuples_of (get_dict md' 1) MINUS = [] \<and> tuples_of (get_dict md' 1) PLUS = [])
   \<and> line_no_at [''  a'', ''- x'', ''+ b'', ''  c''] 2 = 2
   \<and> [''a'', ''b'', ''c''] ! 1 = drop 2 ([''  a'', ''- x'', ''+ b'', ''  c''] ! 2)
   \<and> multidiff_line example_env ''base'' [''a'', ''b'', ''c'']
        [(''f'', [''  a'', ''- x'', ''+ b'', ''  c''])] False 2
      = Inr [''2 - x (1/1)'', ''2 + b (1/1)'', '' '', ''-----'', '' '']"
proof -
  let ?s = "[''  a'', ''- x'', ''+ b'', ''  c'']"
  let ?md = "init ''base'' [''a'', ''b'', ''c''] [''f''] False"
  note th = records_registered_under_base_line_number
    [of example_env "''f''" ?s ?md 2 "[''a'', ''b'', ''c'']" "''f''"]
  from th obtain md' where
    md': "add_file example_env (''f'', ?s) ?md = Inr md'"
      "\<forall>n key. tuples_of (get_dict md' n) key =
            tuples_of (get_dict ?md n) key
            @ map (entry_tuple (squigly_dict (norm_loop (basename ''f'') 0 ?s norm_init)))
                (filter (\<lambda>x. hd (fst x) = key) (records_at (basename ''f'') ?s n))"
    by blast
  have e: "tuples_of (get_dict ?md n) key = []" for n key
    by (simp add: tuples_of_def get_dict_def init_def)
  have "tuples_of (get_dict md' 2) MINUS = [(''- x'', ''f'', [])]"
    "tuples_of (get_dict md' 2) PLUS = [(''+ b'', ''f'', [])]"
    "tuples_of (get_dict md' 1) MINUS = []" "tuples_of (get_dict md' 1) PLUS = []"
    using md'(2) by (simp_all add: e ex_records char_consts del: norm_loop.simps)
  moreover have "multidiff_line example_env ''base'' [''a'', ''b'', ''c''] [(''f'', ?s)] False 2
      = Inr [''2 - x (1/1)'', ''2 + b (1/1)'', '' '', ''-----'', '' '']"
    by code_simp
  ultimately show ?thesis using md'(1) th by (simp add: ex_records del: norm_loop.simps)
qed

text \<open>
  The claim as the specification has it fails: for that base and file, index 1 gets no
  record and \<^verbatim>\<open>get_line(1)\<close> is empty; the two records are at line number 2.
\<close>

theorem records_not_under_zero_based_index:
  "multidiff_line example_env ''base'' [''a'', ''b'', ''c'']
     [(''f'', [''  a'', ''- x'', ''+ b'', ''  c''])] False 1 = Inr []
   \<and> multidiff_line example_env ''base'' [''a'', ''b'', ''c'']
       [(''f'', [''  a'', ''- x'', ''+ b'', ''  c''])] False 2
     = Inr [''2 - x (1/1)'', ''2 + b (1/1)'', '' '', ''-----'', '' '']"
  by code_simp


section \<open>Malformed diffs\<close>

lemma order_ok_example: "order_ok example_env"
  by (simp add: order_ok_def example_env_def)

lemma multidiff_ok: "order_ok e \<Longrightarrow> \<exists>out. multidiff e base lines fds col = Inr out"
proof -
  assume o: "order_ok e"
  obtain md where md: "build e base lines fds col = Inr md" "wf_info md" "pos_info md"
    using build_ok [of e base lines fds col] by blast
  have "\<forall>n. \<exists>out. get_line e md n = Inr out" using get_line_ok [OF o md(2,3)] by blast
  from to_str_ok [OF this] show ?thesis using md(1) by (simp add: multidiff_def bind_err_def)
qed

lemma norm_step_similar:
  assumes "similar i st i' st'"
  shows "similar (Suc i) (norm_step fn i line st) (Suc i') (norm_step fn i' line st')"
proof -
  have a: "local_diff st' = local_diff st" "last_added st' = last_added st"
    "int i' + offset st' = int i + offset st"
    "\<forall>l. squigly_dict st' (Some l) = squigly_dict st (Some l)"
    using assms by (simp_all add: similar_def)
  show ?thesis
    unfolding similar_def norm_step_def using a by auto
qed

lemma norm_loop_similar:
  "similar i st i' st' \<Longrightarrow>
   local_diff (norm_loop fn i' s st') = local_diff (norm_loop fn i s st)
   \<and> (\<forall>l. squigly_dict (norm_loop fn i' s st') (Some l)
           = squigly_dict (norm_loop fn i s st) (Some l))"
proof (induction s arbitrary: i st i' st')
  case Nil
  then show ?case by (simp add: similar_def)
next
  case (Cons line s)
  from Cons.IH [OF norm_step_similar [OF Cons.prems, of fn line]] show ?case by simp
qed

lemma last_added_untagged:
  "\<forall>l\<in>set s. \<not> tagged l \<Longrightarrow> last_added (norm_loop fn i s st) = last_added st"
proof (induction s arbitrary: i st)
  case Nil
  then show ?case by simp
next
  case (Cons line s)
  have "\<not> tagged line" using Cons.prems by simp
  then have "last_added (norm_step fn i line st) = last_added st"
    by (auto simp: norm_step_def tagged_def)
  then show ?case using Cons by simp
qed

lemma parse_entry_agree:
  "\<forall>l. sq' (Some l) = sq (Some l) \<Longrightarrow> parse_entry e sq' = parse_entry e sq"
  by (intro ext) (simp add: parse_entry_def split: prod.splits)

lemma parse_group_agree:
  "\<forall>l. sq' (Some l) = sq (Some l) \<Longrightarrow> parse_group e sq' = parse_group e sq"
proof -
  assume "\<forall>l. sq' (Some l) = sq (Some l)"
  then have "parse_entry e sq' = parse_entry e sq" by (rule parse_entry_agree)
  then show ?thesis by (intro ext) (simp add: parse_group_def)
qed

lemma add_file_similar:
  assumes "local_diff (norm_loop (basename path) 0 s' norm_init)
           = local_diff (norm_loop (basename path) 0 s norm_init)"
    and "\<forall>l. squigly_dict (norm_loop (basename path) 0 s' norm_init) (Some l)
             = squigly_dict (norm_loop (basename path) 0 s norm_init) (Some l)"
  shows "add_file e (path, s') md = add_file e (path, s) md"
  using assms(1) parse_group_agree [OF assms(2), of e] by (simp add: add_file_def Let_def)

lemma orphan_squigly_dropped:
  assumes "startswith q QUESTIONMARK" and "\<forall>l\<in>set pre. \<not> tagged l"
  shows "add_file e (path, pre @ q # rest) md = add_file e (path, pre @ rest) md"
proof -
  let ?fn = "basename path"
  let ?st = "norm_loop ?fn 0 pre norm_init"
  have la: "last_added ?st = None"
    using last_added_untagged [OF assms(2), of ?fn 0 norm_init] by (simp add: norm_init_def)
  have q: "norm_step ?fn (length pre) q ?st
      = ?st\<lparr>squigly_dict := (squigly_dict ?st)(None \<mapsto> q), offset := offset ?st - 1\<rparr>"
    using assms(1) la by (simp add: norm_step_def)
  have sim: "similar (length pre) ?st (Suc (length pre)) (norm_step ?fn (length pre) q ?st)"
    unfolding q by (simp add: similar_def)
  have l: "norm_loop ?fn 0 (pre @ q # rest) norm_init
      = norm_loop ?fn (Suc (length pre)) rest (norm_step ?fn (length pre) q ?st)"
    by (simp add: norm_loop_append)
  have r: "norm_loop ?fn 0 (pre @ rest) norm_init = norm_loop ?fn (length pre) rest ?st"
    by (simp add: norm_loop_append)
  from norm_loop_similar [OF sim, of ?fn rest] have
    ld: "local_diff (norm_loop ?fn 0 (pre @ q # rest) norm_init)
         = local_diff (norm_loop ?fn 0 (pre @ rest) norm_init)" and
    sq: "\<forall>l. squigly_dict (norm_loop ?fn 0 (pre @ q # rest) norm_init) (Some l)
             = squigly_dict (norm_loop ?fn 0 (pre @ rest) norm_init) (Some l)"
    unfolding l r by blast+
  show ?thesis using ld sq by (rule add_file_similar)
qed

lemma unknown_tag_like_context:
  assumes "\<not> startswith u QUESTIONMARK \<and> \<not> startswith u PLUS \<and> \<not> startswith u MINUS"
    and "\<not> startswith c QUESTIONMARK \<and> \<not> startswith c PLUS \<and> \<not> startswith c MINUS"
  shows "add_file e (path, pre @ u # rest) md = add_file e (path, pre @ c # rest) md"
proof -
  have "norm_step fn i u st = norm_step fn i c st" for fn i st
    using assms by (simp add: norm_step_def)
  then have "norm_loop (basename path) 0 (pre @ u # rest) norm_init
      = norm_loop (basename path) 0 (pre @ c # rest) norm_init"
    by (simp add: norm_loop_append)
  then show ?thesis by (simp add: add_file_def)
qed

text \<open>
  C2, as the code has it. The loop over a diff never raises: processing a file always
  succeeds, building the multi-diff always succeeds, and so does the whole of
  \<^verbatim>\<open>multidiff\<close>. A line that starts with none of \<open>?\<close>, \<open>+\<close>, \<open>-\<close> leaves the state of
  the loop as it is, whatever its tag, and the file is processed as with any context line
  in its place. A squigly line is stored under the last recorded line, or under
  \<^verbatim>\<open>None\<close> when there is none, and lowers the offset by one; stored under \<^verbatim>\<open>None\<close> it
  reaches no record, since the second loop looks squigly lines up by diff line only: the
  file is processed as without that line. The error branch of \<^verbatim>\<open>parse_line\<close> is out of
  reach, since only lines that start with \<open>+\<close> or \<open>-\<close> are handed to it.
\<close>

theorem normalization_never_fails:
  "(\<exists>md'. add_file e fd md = Inr md')
   \<and> (\<exists>md'. build e base lines fds col = Inr md')
   \<and> (order_ok e \<longrightarrow> (\<exists>out. multidiff e base lines fds col = Inr out))
   \<and> (\<not> startswith u QUESTIONMARK \<and> \<not> startswith u PLUS \<and> \<not> startswith u MINUS \<longrightarrow>
        norm_step fn i u st = st
        \<and> (\<forall>c. \<not> startswith c QUESTIONMARK \<and> \<not> startswith c PLUS \<and> \<not> startswith c MINUS \<longrightarrow>
              add_file e (path, pre @ u # rest) md = add_file e (path, pre @ c # rest) md))
   \<and> (startswith q QUESTIONMARK \<longrightarrow>
        norm_step fn i q st
          = st\<lparr>squigly_dict := (squigly_dict st)(last_added st \<mapsto> q), offset := offset st - 1\<rparr>)
   \<and> (startswith q QUESTIONMARK \<and> (\<forall>l\<in>set pre. \<not> tagged l) \<longrightarrow>
        add_file e (path, pre @ q # rest) md = add_file e (path, pre @ rest) md)"
proof (intro conjI impI allI)
  show "\<exists>md'. add_file e fd md = Inr md'"
    using add_file_spec [of e "fst fd" "snd fd" md] by auto
  show "\<exists>md'. build e base lines fds col = Inr md'"
    using build_ok [of e base lines fds col] by blast
next
  assume "order_ok e"
  then show "\<exists>out. multidiff e base lines fds col = Inr out" by (rule multidiff_ok)
next
  assume "\<not> startswith u QUESTIONMARK \<and> \<not> startswith u PLUS \<and> \<not> startswith u MINUS"
  then show "norm_step fn i u st = st" by (simp add: norm_step_def)
next
  fix c
  assume "\<not> startswith u QUESTIONMARK \<and> \<not> startswith u PLUS \<and> \<not> startswith u MINUS"
    and "\<not> startswith c QUESTIONMARK \<and> \<not> startswith c PLUS \<and> \<not> startswith c MINUS"
  then show "add_file e (path, pre @ u # rest) md = add_file e (path, pre @ c # rest) md"
    by (rule unknown_tag_like_context)
next
  assume "startswith q QUESTIONMARK"
  then show "norm_step fn i q st
      = st\<lparr>squigly_dict := (squigly_dict st)(last_added st \<mapsto> q), offset := offset st - 1\<rparr>"
    by (simp add: norm_step_def)
next
  assume "startswith q QUESTIONMARK \<and> (\<forall>l\<in>set pre. \<not> tagged l)"
  then show "add_file e (path, pre @ q # rest) md = add_file e (path, pre @ rest) md"
    using orphan_squigly_dropped by blast
qed

theorem normalization_never_fails_witness:
  "(\<exists>md'. add_file example_env (''f'', [''? ^'', ''! bogus'', ''  a''])
             (init ''base'' [''a''] [''f''] False) = Inr md')
   \<and> (\<exists>out. multidiff example_env ''base'' [''a''] [(''f'', [''? ^'', ''! bogus'', ''  a''])] False
              = Inr out)
   \<and> norm_step ''f'' 1 ''! bogus'' norm_init = norm_init
   \<and> add_file example_env (''f'', [''  a''] @ ''! bogus'' # [''- x'', ''+ b''])
        (init ''base'' [''a'', ''b''] [''f''] False)
      = add_file example_env (''f'', [''  a''] @ ''  c'' # [''- x'', ''+ b''])
          (init ''base'' [''a'', ''b''] [''f''] False)
   \<and> norm_step ''f'' 1 ''? ^'' norm_init
       = norm_init\<lparr>squigly_dict := (squigly_dict norm_init)(None \<mapsto> ''? ^''), offset := 0\<rparr>
   \<and> add_file example_env (''f'', [''  a''] @ ''? ^'' # [''- x'', ''+ b''])
        (init ''base'' [''a'', ''b''] [''f''] False)
      = add_file example_env (''f'', [''  a''] @ [''- x'', ''+ b''])
          (init ''base'' [''a'', ''b''] [''f''] False)
   \<and> multidiff_line example_env ''base'' [''a'', ''b'', '''']
        [(''f'', [''  a'', ''? ^'', ''- x'', ''+ b'', ''  ''])] False 2
      = Inr [''2 - x (1/1)'', ''2 + b (1/1)'', '' '', ''-----'', '' '']"
proof -
  note th = normalization_never_fails
    [where e = example_env and fd = "(''f'', [''? ^'', ''! bogus'', ''  a''])"
      and md = "init ''base'' [''a'', ''b''] [''f''] False" and base = "''base''"
      and lines = "[''a'']" and fds = "[(''f'', [''? ^'', ''! bogus'', ''  a''])]" and col = False
      and u = "''! bogus''" and fn = "''f''" and i = 1 and st = norm_init
      and path = "''f''" and pre = "[''  a'']" and rest = "[''- x'', ''+ b'']" and q = "''? ^''"]
  note th0 = normalization_never_fails
    [where e = example_env and fd = "(''f'', [''? ^'', ''! bogus'', ''  a''])"
      and md = "init ''base'' [''a''] [''f''] False"]
  have u: "\<not> startswith ''! bogus'' QUESTIONMARK \<and> \<not> startswith ''! bogus'' PLUS
      \<and> \<not> startswith ''! bogus'' MINUS"
    "\<not> startswith ''  c'' QUESTIONMARK \<and> \<not> startswith ''  c'' PLUS \<and> \<not> startswith ''  c'' MINUS"
    by (simp_all add: char_consts)
  have q: "startswith ''? ^'' QUESTIONMARK" "\<forall>l\<in>set [''  a'']. \<not> tagged l"
    by (simp_all add: char_consts tagged_def)
  have r: "multidiff_line example_env ''base'' [''a'', ''b'', '''']
        [(''f'', [''  a'', ''? ^'', ''- x'', ''+ b'', ''  ''])] False 2
      = Inr [''2 - x (1/1)'', ''2 + b (1/1)'', '' '', ''-----'', '' '']"
    by code_simp
  have 1: "\<exists>md'. add_file example_env (''f'', [''? ^'', ''! bogus'', ''  a''])
             (init ''base'' [''a''] [''f''] False) = Inr md'"
    using th0 by blast
  have 2: "\<exists>out. multidiff example_env ''base'' [''a''] [(''f'', [''? ^'', ''! bogus'', ''  a''])] False
              = Inr out"
    using th order_ok_example by blast
  have 3: "norm_step ''f'' 1 ''! bogus'' norm_init = norm_init" using th u(1) by blast
  have 4: "add_file example_env (''f'', [''  a''] @ ''! bogus'' # [''- x'', ''+ b''])
        (init ''base'' [''a'', ''b''] [''f''] False)
      = add_file example_env (''f'', [''  a''] @ ''  c'' # [''- x'', ''+ b''])
          (init ''base'' [''a'', ''b''] [''f''] False)"
    using th u by blast
  have 5: "norm_step ''f'' 1 ''? ^'' norm_init
       = norm_init\<lparr>squigly_dict := (squigly_dict norm_init)(None \<mapsto> ''? ^''), offset := 0\<rparr>"
    using th q(1) by (simp add: norm_init_def)
  have 6: "add_file example_env (''f'', [''  a''] @ ''? ^'' # [''- x'', ''+ b''])
        (init ''base'' [''a'', ''b''] [''f''] False)
      = add_file example_env (''f'', [''  a''] @ [''- x'', ''+ b''])
          (init ''base'' [''a'', ''b''] [''f''] False)"
    using th q by blast
  show ?thesis by (intro conjI 1 2 3 4 5 6 r)
qed

text \<open>
  The claim as the specification has it fails: a diff that starts with a squigly line and
  holds a line with an unknown tag gives the report of two equal files.
\<close>

theorem malformed_diff_not_surfaced:
  "multidiff example_env ''base'' [''a''] [(''f'', [''? ^'', ''! bogus'', ''  a''])] False
   = Inr (''Comparing base with f'' @ [CHR 0x0A] @ ''====='' @ [CHR 0x0A] @ ''(no diff)''
            @ [CHR 0x0A] @ ''====='')"
  by code_simp


section \<open>Line numbers start at 1\<close>

text \<open>
  C10. After \<open>i\<close> lines of a diff the offset is at least \<open>1 - i\<close>, every line number the
  loop records is at least 1, and so is every line number of the multi-diff that
  \<^verbatim>\<open>multidiff\<close> builds. On that multi-diff \<^verbatim>\<open>get_line(0)\<close> returns nothing, and
  \<^verbatim>\<open>get_line\<close> raises at no line number: the domain error of \<^verbatim>\<open>math.log10\<close> is out of
  reach.
\<close>

theorem line_numbers_at_least_one:
  "1 - int (length s) \<le> offset (norm_loop fn 0 s norm_init)
   \<and> (\<forall>r\<in>set (records_of fn s). 1 \<le> fst r)
   \<and> (\<exists>md. build e base lines fds col = Inr md
         \<and> (\<forall>n d. diff_info md n = Some d \<longrightarrow> 1 \<le> n)
         \<and> (order_ok e \<longrightarrow> get_line e md 0 = Inr [] \<and> (\<forall>n. \<exists>out. get_line e md n = Inr out)))"
proof (intro conjI)
  show "1 - int (length s) \<le> offset (norm_loop fn 0 s norm_init)"
    using norm_loop_inv [of fn s] by simp
  show "\<forall>r\<in>set (records_of fn s). 1 \<le> fst r"
    by (auto simp: records_of_def line_no_at_def)
  obtain md where md: "build e base lines fds col = Inr md" "wf_info md" "pos_info md"
    using build_ok [of e base lines fds col] by blast
  have p: "\<forall>n d. diff_info md n = Some d \<longrightarrow> 1 \<le> n" using md(3) by (simp add: pos_info_def)
  have "get_line e md 0 = Inr [] \<and> (\<forall>n. \<exists>out. get_line e md n = Inr out)" if o: "order_ok e"
  proof
    have "diff_info md 0 = None" using p by (cases "diff_info md 0") auto
    then have "get_dict md 0 = []" by (simp add: get_dict_def)
    then show "get_line e md 0 = Inr []" using o by (simp add: get_line_empty)
    show "\<forall>n. \<exists>out. get_line e md n = Inr out" using get_line_ok [OF o md(2,3)] by blast
  qed
  then show "\<exists>md. build e base lines fds col = Inr md
         \<and> (\<forall>n d. diff_info md n = Some d \<longrightarrow> 1 \<le> n)
         \<and> (order_ok e \<longrightarrow> get_line e md 0 = Inr [] \<and> (\<forall>n. \<exists>out. get_line e md n = Inr out))"
    using md(1) p by blast
qed

theorem line_numbers_at_least_one_witness:
  "offset (norm_loop ''f'' 0 [''- abcd'', ''?   ^'', ''+ abxd'', ''?   ^''] norm_init) = - 2
   \<and> 1 - int (length [''- abcd'', ''?   ^'', ''+ abxd'', ''?   ^'']) \<le> - 2
   \<and> map fst (records_of ''f'' [''- abcd'', ''?   ^'', ''+ abxd'', ''?   ^'']) = [1, 1]
   \<and> order_ok example_env
   \<and> (\<exists>md. build example_env ''base'' [''abxd'']
              [(''f'', [''- abcd'', ''?   ^'', ''+ abxd'', ''?   ^''])] False = Inr md
         \<and> diff_info md 0 = None
         \<and> get_line example_env md 0 = Inr []
         \<and> (\<exists>out. get_line example_env md 1 = Inr out))"
proof -
  let ?s = "[''- abcd'', ''?   ^'', ''+ abxd'', ''?   ^'']"
  have a: "offset (norm_loop ''f'' 0 ?s norm_init) = - 2" by code_simp
  have b: "map fst (records_of ''f'' ?s) = [1, 1]" by code_simp
  from line_numbers_at_least_one [of ?s "''f''" example_env "''base''" "[''abxd'']" "[(''f'', ?s)]" False]
  obtain md where md: "build example_env ''base'' [''abxd''] [(''f'', ?s)] False = Inr md"
    "\<forall>n d. diff_info md n = Some d \<longrightarrow> 1 \<le> n"
    "get_line example_env md 0 = Inr []" "\<forall>n. \<exists>out. get_line example_env md n = Inr out"
    using order_ok_example by blast
  have "diff_info md 0 = None" using md(2) by (cases "diff_info md 0") auto
  then show ?thesis using a b md order_ok_example by (auto simp del: norm_loop.simps)
qed


section \<open>The separator\<close>

lemma wf_info_register: "wf_info md \<Longrightarrow> fst t \<noteq> [] \<Longrightarrow> wf_info (register n k t md)"
  unfolding wf_info_def
proof (intro allI impI)
  fix n' d assume w: "\<forall>n d. diff_info md n = Some d \<longrightarrow> d \<noteq> [] \<and> wf_dict d"
    and t: "fst t \<noteq> []" and d: "diff_info (register n k t md) n' = Some d"
  show "d \<noteq> [] \<and> wf_dict d"
  proof (cases "n' = n")
    case True
    then have "d = setdefault_append k t (get_dict md n)" using d by (simp add: register_get)
    moreover have "wf_dict (get_dict md n)"
      using w by (auto simp: get_dict_def wf_dict_Nil split: option.splits)
    ultimately show ?thesis using t by (simp add: setdefault_append_not_Nil wf_dict_setdefault_append)
  next
    case False
    then show ?thesis using d w by (simp add: register_get)
  qed
qed

lemma wf_info_init: "wf_info (init fn lines fs col)"
  by (simp add: wf_info_def init_def)

lemma wf_example_md: "wf_info example_md"
  by (simp add: example_md_def wf_info_register wf_info_init)

text \<open>
  C9. On a multi-diff as \<^verbatim>\<open>parse_line\<close> leaves it, \<^verbatim>\<open>get_line\<close> returns nothing for a
  line without records, and what it returns for any line is the rendering of the groups
  followed by the separator exactly when the line has a record and the next line number
  has none.
\<close>

theorem separator_after_last_changed_line:
  assumes "order_ok e" and "wf_info md"
  shows "(num_records md n = 0 \<longrightarrow> get_line e md n = Inr [])
     \<and> get_line e md n
        = (case concat_err (map (get_key_lines e md n (get_dict md n)) [MINUS, PLUS]) of
             Inl err \<Rightarrow> Inl err
           | Inr body \<Rightarrow>
               Inr (body @ (if 0 < num_records md n \<and> num_records md (n + 1) = 0
                            then separator else [])))"
proof
  show "num_records md n = 0 \<longrightarrow> get_line e md n = Inr []"
    using assms by (simp add: num_records_0_iff get_line_empty)
  have "(get_dict md n \<noteq> [] \<and> get_dict md (n + 1) = [])
        = (0 < num_records md n \<and> num_records md (n + 1) = 0)"
    using num_records_0_iff [OF assms(2), of n] num_records_0_iff [OF assms(2), of "n + 1"]
    by auto
  then show "get_line e md n
        = (case concat_err (map (get_key_lines e md n (get_dict md n)) [MINUS, PLUS]) of
             Inl err \<Rightarrow> Inl err
           | Inr body \<Rightarrow>
               Inr (body @ (if 0 < num_records md n \<and> num_records md (n + 1) = 0
                            then separator else [])))"
    by (simp add: get_line_def Let_def)
qed

theorem separator_after_last_changed_line_witness:
  "order_ok example_env \<and> wf_info example_md
   \<and> num_records example_md 1 = 0 \<and> get_line example_env example_md 1 = Inr []
   \<and> num_records example_md 2 = 2 \<and> num_records example_md 3 = 1 \<and> num_records example_md 4 = 0
   \<and> get_line example_env example_md 2 = Inr [''2 - x (1/1)'', ''2 + b (1/1)'']
   \<and> get_line example_env example_md 3 = Inr [''3 + c (1/1)'', '' '', ''-----'', '' '']"
proof -
  have n: "num_records example_md 1 = 0" "num_records example_md 2 = 2"
    "num_records example_md 3 = 1" "num_records example_md 4 = 0"
    by code_simp+
  have b: "concat_err (map (get_key_lines example_env example_md 2 (get_dict example_md 2)) [MINUS, PLUS])
      = Inr [''2 - x (1/1)'', ''2 + b (1/1)'']"
    "concat_err (map (get_key_lines example_env example_md 3 (get_dict example_md 3)) [MINUS, PLUS])
      = Inr [''3 + c (1/1)'']"
    by code_simp+
  have r: "replicate 5 (CHR ''-'') = ''-----''" by code_simp
  note th = separator_after_last_changed_line [OF order_ok_example wf_example_md]
  have "get_line example_env example_md 1 = Inr []" using th [of 1] n by simp
  moreover have "get_line example_env example_md 2 = Inr [''2 - x (1/1)'', ''2 + b (1/1)'']"
    using th [of 2] n b by simp
  moreover have "get_line example_env example_md 3 = Inr [''3 + c (1/1)'', '' '', ''-----'', '' '']"
    using th [of 3] n b by (simp add: separator_def SEP_WIDTH_def r)
  ultimately show ?thesis using n order_ok_example wf_example_md by (simp add: r)
qed


section \<open>What \<^verbatim>\<open>get_line\<close> returns, group by group\<close>

lemma render_group_out:
  assumes "cd l = Some fs" and "l \<noteq> []" and "1 \<le> n"
  shows "render_group e md n cd sd l = Inr (group_out e md n cd sd l)"
proof -
  obtain c where c: "colorize (colored md) l (case sd l of None \<Rightarrow> [] | Some s \<Rightarrow> s) = Inr c"
    using colorize_ok [OF assms(2)] by blast
  show ?thesis
    using assms(1) c int_log10_ok [OF assms(3), of e]
    by (simp add: render_group_def group_out_def first_line_def Let_def del: join.simps)
qed

lemma concat_err_map:
  "\<forall>x\<in>set xs. f x = Inr (g x) \<Longrightarrow> concat_err (map f xs) = Inr (concat (map g xs))"
  by (induction xs) auto

lemma key_groups:
  assumes "order_ok e" and "wf_info md" and "pos_info md"
  shows "\<exists>lines sel cd sd.
           selected e (tuples_of (get_dict md n) key) = Inr (sel, cd, sd)
           \<and> groups_ok (tuples_of (get_dict md n) key) (lines, cd, sd)
           \<and> get_key_lines e md n (get_dict md n) key
              = Inr (concat (map (group_out e md n cd sd) sel))
           \<and> sorted (map (variant_count (tuples_of (get_dict md n) key)) sel)
           \<and> length sel = min MAX_DIFF_GROUPS (card (fst ` set (tuples_of (get_dict md n) key)))
           \<and> distinct sel \<and> set sel \<subseteq> fst ` set (tuples_of (get_dict md n) key)
           \<and> (\<forall>a\<in>set sel. \<forall>b\<in>fst ` set (tuples_of (get_dict md n) key) - set sel.
                 variant_count (tuples_of (get_dict md n) key) a
                 \<le> variant_count (tuples_of (get_dict md n) key) b)"
proof -
  let ?d = "get_dict md n"
  let ?ts = "tuples_of ?d key"
  from selected_spec [OF assms(1), of ?ts] obtain lines sel cd sd where
    s: "selected e ?ts = Inr (sel, cd, sd)" "groups_ok ?ts (lines, cd, sd)"
      "sorted (map (variant_count ?ts) sel)"
      "length sel = min MAX_DIFF_GROUPS (card (fst ` set ?ts))"
      "distinct sel" "set sel \<subseteq> fst ` set ?ts"
      "\<forall>a\<in>set sel. \<forall>b\<in>fst ` set ?ts - set sel. variant_count ?ts a \<le> variant_count ?ts b"
    by blast
  have ne: "\<forall>t\<in>set ?ts. fst t \<noteq> []"
  proof (cases "?ts = []")
    case True
    then show ?thesis by simp
  next
    case False
    from tuples_of_member [OF this] wf_info_get_dict [OF assms(2), of n]
    show ?thesis by (auto simp: wf_dict_def)
  qed
  have pos: "1 \<le> n" if "?ts \<noteq> []"
  proof -
    have "?d \<noteq> []" using that by (auto simp: tuples_of_def)
    then obtain d where "diff_info md n = Some d" by (auto simp: get_dict_def split: option.splits)
    then show ?thesis using assms(3) by (auto simp: pos_info_def)
  qed
  have "\<forall>l\<in>set sel. render_group e md n cd sd l = Inr (group_out e md n cd sd l)"
  proof
    fix l assume l: "l \<in> set sel"
    then have lt: "l \<in> fst ` set ?ts" using s(6) by blast
    then obtain fs where fs: "cd l = Some fs" using s(2) by (auto simp: groups_ok_def)
    have "l \<noteq> []" using lt ne by auto
    moreover have "?ts \<noteq> []" using lt by auto
    then have "1 \<le> n" by (rule pos)
    ultimately show "render_group e md n cd sd l = Inr (group_out e md n cd sd l)"
      using fs by (simp add: render_group_out)
  qed
  then have "get_key_lines e md n ?d key = Inr (concat (map (group_out e md n cd sd) sel))"
    using s(1) by (simp add: get_key_lines_def concat_err_map)
  then show ?thesis using s by blast
qed

lemma get_line_groups:
  assumes "order_ok e" and "wf_info md" and "pos_info md"
  shows "\<exists>shown cd sd.
           (\<forall>key. selected e (tuples_of (get_dict md n) key) = Inr (shown key, cd key, sd key))
           \<and> get_line e md n
              = Inr (concat (map (group_out e md n (cd MINUS) (sd MINUS)) (shown MINUS))
                     @ concat (map (group_out e md n (cd PLUS) (sd PLUS)) (shown PLUS))
                     @ sep_of md n)
           \<and> (\<forall>key. sorted (map (variant_count (tuples_of (get_dict md n) key)) (shown key))
                 \<and> length (shown key)
                    = min MAX_DIFF_GROUPS (card (fst ` set (tuples_of (get_dict md n) key)))
                 \<and> distinct (shown key)
                 \<and> set (shown key) \<subseteq> fst ` set (tuples_of (get_dict md n) key)
                 \<and> (\<forall>a\<in>set (shown key).
                      \<forall>b\<in>fst ` set (tuples_of (get_dict md n) key) - set (shown key).
                        variant_count (tuples_of (get_dict md n) key) a
                        \<le> variant_count (tuples_of (get_dict md n) key) b))
           \<and> (\<forall>key. \<forall>l\<in>set (shown key).
                 l \<noteq> [] \<and> (\<exists>fs. cd key l = Some fs
                              \<and> length fs = variant_count (tuples_of (get_dict md n) key) l))"
proof -
  let ?ts = "\<lambda>key. tuples_of (get_dict md n) key"
  define shown where "shown = (\<lambda>key. fst (projr (selected e (?ts key))))"
  define cd where "cd = (\<lambda>key. fst (snd (projr (selected e (?ts key)))))"
  define sd where "sd = (\<lambda>key. snd (snd (projr (selected e (?ts key)))))"
  have k: "\<exists>lines. selected e (?ts key) = Inr (shown key, cd key, sd key)
      \<and> groups_ok (?ts key) (lines, cd key, sd key)
      \<and> get_key_lines e md n (get_dict md n) key
          = Inr (concat (map (group_out e md n (cd key) (sd key)) (shown key)))
      \<and> sorted (map (variant_count (?ts key)) (shown key))
      \<and> length (shown key) = min MAX_DIFF_GROUPS (card (fst ` set (?ts key)))
      \<and> distinct (shown key) \<and> set (shown key) \<subseteq> fst ` set (?ts key)
      \<and> (\<forall>a\<in>set (shown key). \<forall>b\<in>fst ` set (?ts key) - set (shown key).
            variant_count (?ts key) a \<le> variant_count (?ts key) b)" for key
  proof -
    from key_groups [OF assms, of n key] obtain lines sel cd' sd' where
      g: "selected e (?ts key) = Inr (sel, cd', sd')" "groups_ok (?ts key) (lines, cd', sd')"
        "get_key_lines e md n (get_dict md n) key = Inr (concat (map (group_out e md n cd' sd') sel))"
        "sorted (map (variant_count (?ts key)) sel)"
        "length sel = min MAX_DIFF_GROUPS (card (fst ` set (?ts key)))"
        "distinct sel" "set sel \<subseteq> fst ` set (?ts key)"
        "\<forall>a\<in>set sel. \<forall>b\<in>fst ` set (?ts key) - set sel.
            variant_count (?ts key) a \<le> variant_count (?ts key) b"
      by blast
    have "shown key = sel" "cd key = cd'" "sd key = sd'"
      using g(1) by (simp_all add: shown_def cd_def sd_def)
    then show ?thesis using g by blast
  qed
  have s: "(get_dict md n \<noteq> [] \<and> get_dict md (n + 1) = [])
        = (0 < num_records md n \<and> num_records md (n + 1) = 0)"
    using num_records_0_iff [OF assms(2), of n] num_records_0_iff [OF assms(2), of "n + 1"]
    by auto
  have ne: "l \<noteq> [] \<and> (\<exists>fs. cd key l = Some fs \<and> length fs = variant_count (?ts key) l)"
    if l: "l \<in> set (shown key)" for key l
  proof -
    obtain lines where g: "groups_ok (?ts key) (lines, cd key, sd key)"
      "set (shown key) \<subseteq> fst ` set (?ts key)" using k [of key] by blast
    have lt: "l \<in> fst ` set (?ts key)" using l g(2) by blast
    then have "?ts key \<noteq> []" by auto
    from tuples_of_member [OF this] wf_info_get_dict [OF assms(2), of n]
    have "\<forall>t\<in>set (?ts key). fst t \<noteq> []" by (force simp: wf_dict_def)
    then have "l \<noteq> []" using lt by auto
    then show ?thesis using groups_ok_count [OF g(1) lt] by simp
  qed
  have "get_line e md n
      = Inr (concat (map (group_out e md n (cd MINUS) (sd MINUS)) (shown MINUS))
             @ concat (map (group_out e md n (cd PLUS) (sd PLUS)) (shown PLUS))
             @ sep_of md n)"
    using k [of MINUS] k [of PLUS] s by (auto simp: get_line_def Let_def sep_of_def)
  then show ?thesis using k ne by blast
qed

lemma join_two: "join sep ([a, b] @ xs) = a @ sep @ join sep (b # xs)"
  by simp

lemma group_out_shape:
  assumes "l \<noteq> []" and "cd l = Some fs"
  shows "\<exists>ctext. colorize (colored md) l (case sd l of None \<Rightarrow> [] | Some s \<Rightarrow> s) = Inr ctext
           \<and> group_out e md n cd sd l
              = first_line e md n ctext fs
                # (if \<not> colored md \<and> (case sd l of None \<Rightarrow> [] | Some s \<Rightarrow> s) \<noteq> []
                   then [replicate (nat (2 + trunc_log10 e n)) (CHR '' '')
                         @ (case sd l of None \<Rightarrow> [] | Some s \<Rightarrow> s)]
                   else [])"
proof -
  obtain c where c: "colorize (colored md) l (case sd l of None \<Rightarrow> [] | Some s \<Rightarrow> s) = Inr c"
    using colorize_ok [OF assms(1)] by blast
  then show ?thesis using assms(2) by (simp add: group_out_def Let_def)
qed

lemma pos_info_register: "pos_info md \<Longrightarrow> 1 \<le> n \<Longrightarrow> pos_info (register n k t md)"
  by (auto simp: pos_info_def register_get split: if_splits)

lemma pos_info_init: "pos_info (init fn lines fs col)"
  by (simp add: pos_info_def init_def)


section \<open>Order and number of the variants shown\<close>

lemma wf_pos_four_md: "wf_info four_md" "pos_info four_md"
  by (simp_all add: four_md_def four_variants_def wf_info_register wf_info_init
      pos_info_register pos_info_init)

text \<open>
  C7. On a multi-diff as \<^verbatim>\<open>multidiff\<close> builds it, what \<^verbatim>\<open>get_line\<close> returns for a line
  number is, for the removals and then for the additions, one block of output lines per
  variant of a list, in the order of the list, followed by the separator when it is due.
  Either list holds distinct variants of its bucket, their file-counts do not decrease, and
  it has at most 3 variants; when the bucket has more than 3 variants the list has exactly
  3, and no variant left out has a smaller file-count than one in the list. The block of a
  variant starts with a line made of the line number, a blank and the variant as colored.
\<close>

theorem variants_sorted_and_capped:
  assumes "order_ok e" and "wf_info md" and "pos_info md"
  shows "\<exists>shown cd sd.
           (\<forall>key. selected e (tuples_of (get_dict md n) key) = Inr (shown key, cd key, sd key))
           \<and> get_line e md n
              = Inr (concat (map (group_out e md n (cd MINUS) (sd MINUS)) (shown MINUS))
                     @ concat (map (group_out e md n (cd PLUS) (sd PLUS)) (shown PLUS))
                     @ sep_of md n)
           \<and> (\<forall>key. sorted (map (variant_count (tuples_of (get_dict md n) key)) (shown key))
                 \<and> length (shown key) \<le> 3
                 \<and> distinct (shown key)
                 \<and> set (shown key) \<subseteq> fst ` set (tuples_of (get_dict md n) key)
                 \<and> (3 < card (fst ` set (tuples_of (get_dict md n) key)) \<longrightarrow>
                      length (shown key) = 3)
                 \<and> (\<forall>a\<in>set (shown key).
                      \<forall>b\<in>fst ` set (tuples_of (get_dict md n) key) - set (shown key).
                        variant_count (tuples_of (get_dict md n) key) a
                        \<le> variant_count (tuples_of (get_dict md n) key) b))
           \<and> (\<forall>key. \<forall>l\<in>set (shown key). \<exists>ctext tail rest.
                 colorize (colored md) l (case sd key l of None \<Rightarrow> [] | Some s \<Rightarrow> s) = Inr ctext
                 \<and> group_out e md n (cd key) (sd key) l
                    = (str_int n @ '' '' @ ctext @ tail) # rest)"
proof -
  let ?ts = "\<lambda>key. tuples_of (get_dict md n) key"
  from get_line_groups [OF assms, of n] obtain shown cd sd where
    g1: "\<forall>key. selected e (?ts key) = Inr (shown key, cd key, sd key)" and
    g2: "get_line e md n
         = Inr (concat (map (group_out e md n (cd MINUS) (sd MINUS)) (shown MINUS))
                @ concat (map (group_out e md n (cd PLUS) (sd PLUS)) (shown PLUS))
                @ sep_of md n)" and
    g3: "\<forall>key. sorted (map (variant_count (?ts key)) (shown key))
                 \<and> length (shown key) = min MAX_DIFF_GROUPS (card (fst ` set (?ts key)))
                 \<and> distinct (shown key)
                 \<and> set (shown key) \<subseteq> fst ` set (?ts key)
                 \<and> (\<forall>a\<in>set (shown key). \<forall>b\<in>fst ` set (?ts key) - set (shown key).
                        variant_count (?ts key) a \<le> variant_count (?ts key) b)" and
    g4: "\<forall>key. \<forall>l\<in>set (shown key).
          l \<noteq> [] \<and> (\<exists>fs. cd key l = Some fs \<and> length fs = variant_count (?ts key) l)"
    by (elim exE conjE)
  have p: "\<forall>key. sorted (map (variant_count (?ts key)) (shown key))
                 \<and> length (shown key) \<le> 3
                 \<and> distinct (shown key)
                 \<and> set (shown key) \<subseteq> fst ` set (?ts key)
                 \<and> (3 < card (fst ` set (?ts key)) \<longrightarrow> length (shown key) = 3)
                 \<and> (\<forall>a\<in>set (shown key). \<forall>b\<in>fst ` set (?ts key) - set (shown key).
                        variant_count (?ts key) a \<le> variant_count (?ts key) b)"
  proof
    fix key
    note k = g3 [rule_format, of key]
    have "length (shown key) = min 3 (card (fst ` set (?ts key)))"
      using k by (simp add: MAX_DIFF_GROUPS_def)
    then have "length (shown key) \<le> 3" "3 < card (fst ` set (?ts key)) \<longrightarrow> length (shown key) = 3"
      by simp_all
    then show "sorted (map (variant_count (?ts key)) (shown key))
                 \<and> length (shown key) \<le> 3
                 \<and> distinct (shown key)
                 \<and> set (shown key) \<subseteq> fst ` set (?ts key)
                 \<and> (3 < card (fst ` set (?ts key)) \<longrightarrow> length (shown key) = 3)
                 \<and> (\<forall>a\<in>set (shown key). \<forall>b\<in>fst ` set (?ts key) - set (shown key).
                        variant_count (?ts key) a \<le> variant_count (?ts key) b)"
      using k by (intro conjI) (elim conjE, assumption)+
  qed
  have r: "\<forall>key. \<forall>l\<in>set (shown key). \<exists>ctext tail rest.
                 colorize (colored md) l (case sd key l of None \<Rightarrow> [] | Some s \<Rightarrow> s) = Inr ctext
                 \<and> group_out e md n (cd key) (sd key) l
                    = (str_int n @ '' '' @ ctext @ tail) # rest"
  proof (intro allI ballI)
    fix key l assume l: "l \<in> set (shown key)"
    from g4 l obtain fs where f: "l \<noteq> []" "cd key l = Some fs" by blast
    from group_out_shape [where l = l and cd = "cd key" and fs = fs and md = md
        and sd = "sd key" and e = e and n = n, OF f] obtain ctext where
      c: "colorize (colored md) l (case sd key l of None \<Rightarrow> [] | Some s \<Rightarrow> s) = Inr ctext"
        "group_out e md n (cd key) (sd key) l
              = first_line e md n ctext fs
                # (if \<not> colored md \<and> (case sd key l of None \<Rightarrow> [] | Some s \<Rightarrow> s) \<noteq> []
                   then [replicate (nat (2 + trunc_log10 e n)) (CHR '' '')
                         @ (case sd key l of None \<Rightarrow> [] | Some s \<Rightarrow> s)]
                   else [])" by blast
    have "\<exists>tail. first_line e md n ctext fs = str_int n @ '' '' @ ctext @ tail"
      unfolding first_line_def join_two by simp
    then show "\<exists>ctext tail rest.
                 colorize (colored md) l (case sd key l of None \<Rightarrow> [] | Some s \<Rightarrow> s) = Inr ctext
                 \<and> group_out e md n (cd key) (sd key) l
                    = (str_int n @ '' '' @ ctext @ tail) # rest"
      using c by auto
  qed
  show ?thesis
    by (rule exI [of _ shown], rule exI [of _ cd], rule exI [of _ sd]) (intro conjI g1 g2 p r)
qed

theorem variants_sorted_and_capped_witness:
  "order_ok example_env \<and> wf_info four_md \<and> pos_info four_md
   \<and> card (fst ` set (tuples_of (get_dict four_md 1) MINUS)) = 4
   \<and> (\<exists>shown cd sd.
         (\<forall>key. selected example_env (tuples_of (get_dict four_md 1) key)
                  = Inr (shown key, cd key, sd key))
         \<and> get_line example_env four_md 1
            = Inr (concat (map (group_out example_env four_md 1 (cd MINUS) (sd MINUS)) (shown MINUS))
                   @ concat (map (group_out example_env four_md 1 (cd PLUS) (sd PLUS)) (shown PLUS))
                   @ sep_of four_md 1)
         \<and> length (shown MINUS) = 3
         \<and> sorted (map (variant_count (tuples_of (get_dict four_md 1) MINUS)) (shown MINUS)))
   \<and> get_line example_env four_md 1
      = Inr [''1 - x (1/4) C'', ''1 - y (1/4) D'', ''1 - w (2/4) A, B'', '' '', ''-----'', '' '']"
proof -
  let ?ts = "\<lambda>key. tuples_of (get_dict four_md 1) key"
  have c: "card (fst ` set (?ts MINUS)) = 4" by code_simp
  have g: "get_line example_env four_md 1
      = Inr [''1 - x (1/4) C'', ''1 - y (1/4) D'', ''1 - w (2/4) A, B'', '' '', ''-----'', '' '']"
    by code_simp
  from variants_sorted_and_capped [OF order_ok_example wf_pos_four_md, of 1]
  obtain shown cd sd where
    s1: "\<forall>key. selected example_env (?ts key) = Inr (shown key, cd key, sd key)" and
    s2: "get_line example_env four_md 1
            = Inr (concat (map (group_out example_env four_md 1 (cd MINUS) (sd MINUS)) (shown MINUS))
                   @ concat (map (group_out example_env four_md 1 (cd PLUS) (sd PLUS)) (shown PLUS))
                   @ sep_of four_md 1)" and
    s3: "\<forall>key. sorted (map (variant_count (?ts key)) (shown key))
                 \<and> length (shown key) \<le> 3
                 \<and> distinct (shown key)
                 \<and> set (shown key) \<subseteq> fst ` set (?ts key)
                 \<and> (3 < card (fst ` set (?ts key)) \<longrightarrow> length (shown key) = 3)
                 \<and> (\<forall>a\<in>set (shown key). \<forall>b\<in>fst ` set (?ts key) - set (shown key).
                        variant_count (?ts key) a \<le> variant_count (?ts key) b)"
    by (elim exE conjE)
  note k = s3 [rule_format, of MINUS]
  have l: "length (shown MINUS) = 3" using k c by simp
  have o: "sorted (map (variant_count (?ts MINUS)) (shown MINUS))" using k by simp
  have "\<exists>shown cd sd.
         (\<forall>key. selected example_env (?ts key) = Inr (shown key, cd key, sd key))
         \<and> get_line example_env four_md 1
            = Inr (concat (map (group_out example_env four_md 1 (cd MINUS) (sd MINUS)) (shown MINUS))
                   @ concat (map (group_out example_env four_md 1 (cd PLUS) (sd PLUS)) (shown PLUS))
                   @ sep_of four_md 1)
         \<and> length (shown MINUS) = 3
         \<and> sorted (map (variant_count (?ts MINUS)) (shown MINUS))"
    by (rule exI [of _ shown], rule exI [of _ cd], rule exI [of _ sd]) (intro conjI s1 s2 l o)
  then show ?thesis
    by (intro conjI order_ok_example wf_pos_four_md c g)
qed


section \<open>The file-count\<close>

lemma wf_pos_repeated_md: "wf_info repeated_md" "pos_info repeated_md"
  by (simp_all add: repeated_md_def repeated_file_def wf_info_register wf_info_init
      pos_info_register pos_info_init)

lemma selected_groups_ok:
  assumes "selected e ts = Inr (sel, cd, sd)"
  shows "\<exists>lines. groups_ok ts (lines, cd, sd)"
proof -
  obtain lines cd' sd' where g: "collect ts = Inr (lines, cd', sd')" "groups_ok ts (lines, cd', sd')"
    using collect_ok [of ts] by (metis prod_cases3)
  have "cd' = cd \<and> sd' = sd"
    using assms g(1) by (auto simp: selected_def split: sum.splits)
  then show ?thesis using g(2) by blast
qed

text \<open>
  C8. On a multi-diff as \<^verbatim>\<open>multidiff\<close> builds it, what \<^verbatim>\<open>get_line\<close> returns for a line
  number is made of the blocks of the variants it shows, and in the first line of the block
  of a variant, after the line number and the variant as colored, the first number of the
  file-count is the number of distinct file names among the tuples of the bucket with that
  diff line; the names listed behind it, when not every file has the variant, are those
  file names, each once.
\<close>

theorem file_count_counts_distinct_files:
  assumes "order_ok e" and "wf_info md" and "pos_info md"
  shows "\<exists>shown cd sd.
           (\<forall>key. selected e (tuples_of (get_dict md n) key) = Inr (shown key, cd key, sd key))
           \<and> get_line e md n
              = Inr (concat (map (group_out e md n (cd MINUS) (sd MINUS)) (shown MINUS))
                     @ concat (map (group_out e md n (cd PLUS) (sd PLUS)) (shown PLUS))
                     @ sep_of md n)
           \<and> (\<forall>key. \<forall>l\<in>set (shown key). \<exists>ctext fs rest.
                 colorize (colored md) l (case sd key l of None \<Rightarrow> [] | Some s \<Rightarrow> s) = Inr ctext
                 \<and> cd key l = Some fs \<and> distinct fs
                 \<and> set fs = set (sources (tuples_of (get_dict md n) key) l)
                 \<and> group_out e md n (cd key) (sd key) l
                    = join '' ''
                        ([str_int n @ '' '' @ ctext,
                          file_count (card (set (sources (tuples_of (get_dict md n) key) l)))
                            (length (files md))]
                         @ (if card (set (sources (tuples_of (get_dict md n) key) l))
                               \<noteq> length (files md)
                            then [join '', '' (set_order e fs)] else [])) # rest)"
proof -
  let ?ts = "\<lambda>key. tuples_of (get_dict md n) key"
  from get_line_groups [OF assms, of n] obtain shown cd sd where
    g1: "\<forall>key. selected e (?ts key) = Inr (shown key, cd key, sd key)" and
    g2: "get_line e md n
         = Inr (concat (map (group_out e md n (cd MINUS) (sd MINUS)) (shown MINUS))
                @ concat (map (group_out e md n (cd PLUS) (sd PLUS)) (shown PLUS))
                @ sep_of md n)" and
    g3: "\<forall>key. sorted (map (variant_count (?ts key)) (shown key))
                 \<and> length (shown key) = min MAX_DIFF_GROUPS (card (fst ` set (?ts key)))
                 \<and> distinct (shown key)
                 \<and> set (shown key) \<subseteq> fst ` set (?ts key)
                 \<and> (\<forall>a\<in>set (shown key). \<forall>b\<in>fst ` set (?ts key) - set (shown key).
                        variant_count (?ts key) a \<le> variant_count (?ts key) b)" and
    g4: "\<forall>key. \<forall>l\<in>set (shown key).
          l \<noteq> [] \<and> (\<exists>fs. cd key l = Some fs \<and> length fs = variant_count (?ts key) l)"
    by (elim exE conjE)
  have r: "\<forall>key. \<forall>l\<in>set (shown key). \<exists>ctext fs rest.
                 colorize (colored md) l (case sd key l of None \<Rightarrow> [] | Some s \<Rightarrow> s) = Inr ctext
                 \<and> cd key l = Some fs \<and> distinct fs
                 \<and> set fs = set (sources (?ts key) l)
                 \<and> group_out e md n (cd key) (sd key) l
                    = join '' ''
                        ([str_int n @ '' '' @ ctext,
                          file_count (card (set (sources (?ts key) l))) (length (files md))]
                         @ (if card (set (sources (?ts key) l)) \<noteq> length (files md)
                            then [join '', '' (set_order e fs)] else [])) # rest"
  proof (intro allI ballI)
    fix key l assume l: "l \<in> set (shown key)"
    have lt: "l \<in> fst ` set (?ts key)" using g3 [rule_format, of key] l by blast
    obtain lines where ok: "groups_ok (?ts key) (lines, cd key, sd key)"
      using selected_groups_ok [OF g1 [rule_format, of key]] by blast
    then obtain fs where f: "cd key l = Some fs" and d: "distinct fs"
      and st: "set fs = set (sources (?ts key) l)"
      using lt by (auto simp: groups_ok_def)
    have n: "length fs = card (set (sources (?ts key) l))"
      using d st distinct_card [of fs] by simp
    have ne: "l \<noteq> []" using g4 l by blast
    from group_out_shape [where l = l and cd = "cd key" and fs = fs and md = md
        and sd = "sd key" and e = e and n = n, OF ne f] obtain ctext where
      c0: "colorize (colored md) l (case sd key l of None \<Rightarrow> [] | Some s \<Rightarrow> s) = Inr ctext" and
      c: "group_out e md n (cd key) (sd key) l
              = first_line e md n ctext fs
                # (if \<not> colored md \<and> (case sd key l of None \<Rightarrow> [] | Some s \<Rightarrow> s) \<noteq> []
                   then [replicate (nat (2 + trunc_log10 e n)) (CHR '' '')
                         @ (case sd key l of None \<Rightarrow> [] | Some s \<Rightarrow> s)]
                   else [])" by blast
    have "\<exists>rest. group_out e md n (cd key) (sd key) l
                    = join '' ''
                        ([str_int n @ '' '' @ ctext,
                          file_count (card (set (sources (?ts key) l))) (length (files md))]
                         @ (if card (set (sources (?ts key) l)) \<noteq> length (files md)
                            then [join '', '' (set_order e fs)] else [])) # rest"
      unfolding c first_line_def n by blast
    then show "\<exists>ctext fs rest.
                 colorize (colored md) l (case sd key l of None \<Rightarrow> [] | Some s \<Rightarrow> s) = Inr ctext
                 \<and> cd key l = Some fs \<and> distinct fs
                 \<and> set fs = set (sources (?ts key) l)
                 \<and> group_out e md n (cd key) (sd key) l
                    = join '' ''
                        ([str_int n @ '' '' @ ctext,
                          file_count (card (set (sources (?ts key) l))) (length (files md))]
                         @ (if card (set (sources (?ts key) l)) \<noteq> length (files md)
                            then [join '', '' (set_order e fs)] else [])) # rest"
      using c0 f d st by blast
  qed
  show ?thesis
    by (rule exI [of _ shown], rule exI [of _ cd], rule exI [of _ sd]) (intro conjI g1 g2 r)
qed

theorem file_count_counts_distinct_files_witness:
  "order_ok example_env \<and> wf_info repeated_md \<and> pos_info repeated_md
   \<and> tuples_of (get_dict repeated_md 1) MINUS = repeated_file
   \<and> sources repeated_file ''- x'' = [''A'', ''A'', ''B'']
   \<and> card (set (sources repeated_file ''- x'')) = 2
   \<and> (\<exists>shown cd sd.
         (\<forall>key. selected example_env (tuples_of (get_dict repeated_md 1) key)
                  = Inr (shown key, cd key, sd key))
         \<and> get_line example_env repeated_md 1
            = Inr (concat (map (group_out example_env repeated_md 1 (cd MINUS) (sd MINUS))
                             (shown MINUS))
                   @ concat (map (group_out example_env repeated_md 1 (cd PLUS) (sd PLUS))
                               (shown PLUS))
                   @ sep_of repeated_md 1))
   \<and> get_line example_env repeated_md 1 = Inr [''1 - x (2/3) A, B'', '' '', ''-----'', '' '']"
proof -
  have t: "tuples_of (get_dict repeated_md 1) MINUS = repeated_file" by code_simp
  have s: "sources repeated_file ''- x'' = [''A'', ''A'', ''B'']" by code_simp
  have c: "card (set (sources repeated_file ''- x'')) = 2" by code_simp
  have g: "get_line example_env repeated_md 1 = Inr [''1 - x (2/3) A, B'', '' '', ''-----'', '' '']"
    by code_simp
  from file_count_counts_distinct_files [OF order_ok_example wf_pos_repeated_md, of 1]
  obtain shown cd sd where
    s1: "\<forall>key. selected example_env (tuples_of (get_dict repeated_md 1) key)
                  = Inr (shown key, cd key, sd key)" and
    s2: "get_line example_env repeated_md 1
            = Inr (concat (map (group_out example_env repeated_md 1 (cd MINUS) (sd MINUS))
                             (shown MINUS))
                   @ concat (map (group_out example_env repeated_md 1 (cd PLUS) (sd PLUS))
                               (shown PLUS))
                   @ sep_of repeated_md 1)"
    by (elim exE conjE)
  have "\<exists>shown cd sd.
         (\<forall>key. selected example_env (tuples_of (get_dict repeated_md 1) key)
                  = Inr (shown key, cd key, sd key))
         \<and> get_line example_env repeated_md 1
            = Inr (concat (map (group_out example_env repeated_md 1 (cd MINUS) (sd MINUS))
                             (shown MINUS))
                   @ concat (map (group_out example_env repeated_md 1 (cd PLUS) (sd PLUS))
                               (shown PLUS))
                   @ sep_of repeated_md 1)"
    by (rule exI [of _ shown], rule exI [of _ cd], rule exI [of _ sd]) (intro conjI s1 s2)
  then show ?thesis
    by (intro conjI order_ok_example wf_pos_repeated_md t s c g)
qed


section \<open>The blanks before a squigly line\<close>

lemma wf_pos_squigly_md: "wf_info squigly_md" "pos_info squigly_md"
  by (simp_all add: squigly_md_def wf_info_register wf_info_init
      pos_info_register pos_info_init)

lemma plain_squigly_md: "\<not> colored squigly_md"
  by (simp add: squigly_md_def register_fields init_def)

text \<open>
  C3, as the code has it. Without colors, on a multi-diff as \<^verbatim>\<open>multidiff\<close> builds it, what
  \<^verbatim>\<open>get_line\<close> returns for a line number is made of the blocks of the variants it shows.
  The block of a variant starts with a line made of the line number, a blank and the diff
  line; when the merged squigly line of the variant is not empty the block has a second
  line, the squigly line behind \<open>2 + int(math.log10(line_no))\<close> blanks, and otherwise no
  second line. Where the float logarithm truncates to the exact one, which is at every line
  number up to 999999999999997, that is one blank more than the line number has digits, so
  that the squigly line stands under the diff line.
\<close>

theorem squigly_line_padding:
  assumes "order_ok e" and "wf_info md" and "pos_info md" and "\<not> colored md"
  shows "(\<exists>shown cd sd.
            (\<forall>key. selected e (tuples_of (get_dict md n) key) = Inr (shown key, cd key, sd key))
            \<and> get_line e md n
               = Inr (concat (map (group_out e md n (cd MINUS) (sd MINUS)) (shown MINUS))
                      @ concat (map (group_out e md n (cd PLUS) (sd PLUS)) (shown PLUS))
                      @ sep_of md n)
            \<and> (\<forall>key. \<forall>l\<in>set (shown key). \<exists>rest.
                  group_out e md n (cd key) (sd key) l
                  = (str_int n @ '' '' @ l @ rest)
                    # (case sd key l of
                         None \<Rightarrow> []
                       | Some sq \<Rightarrow>
                           if sq = [] then []
                           else [replicate (nat (2 + trunc_log10 e n)) (CHR '' '') @ sq])))
     \<and> (1 \<le> n \<and> trunc_log10 e n = exact_log10 n \<longrightarrow>
          nat (2 + trunc_log10 e n) = 1 + length (str_int n))"
proof
  let ?ts = "\<lambda>key. tuples_of (get_dict md n) key"
  from get_line_groups [OF assms(1-3), of n] obtain shown cd sd where
    g1: "\<forall>key. selected e (?ts key) = Inr (shown key, cd key, sd key)" and
    g2: "get_line e md n
         = Inr (concat (map (group_out e md n (cd MINUS) (sd MINUS)) (shown MINUS))
                @ concat (map (group_out e md n (cd PLUS) (sd PLUS)) (shown PLUS))
                @ sep_of md n)" and
    g4: "\<forall>key. \<forall>l\<in>set (shown key).
          l \<noteq> [] \<and> (\<exists>fs. cd key l = Some fs \<and> length fs = variant_count (?ts key) l)"
    by (elim exE conjE)
  have r: "\<forall>key. \<forall>l\<in>set (shown key). \<exists>rest.
                  group_out e md n (cd key) (sd key) l
                  = (str_int n @ '' '' @ l @ rest)
                    # (case sd key l of
                         None \<Rightarrow> []
                       | Some sq \<Rightarrow>
                           if sq = [] then []
                           else [replicate (nat (2 + trunc_log10 e n)) (CHR '' '') @ sq])"
  proof (intro allI ballI)
    fix key l assume l: "l \<in> set (shown key)"
    from g4 l obtain fs where f: "l \<noteq> []" "cd key l = Some fs" by blast
    have p: "colorize (colored md) l sq = Inr l" for sq
      using assms(4) by (simp add: colorize_def)
    from group_out_shape [where l = l and cd = "cd key" and fs = fs and md = md
        and sd = "sd key" and e = e and n = n, OF f]
    have c: "group_out e md n (cd key) (sd key) l
              = first_line e md n l fs
                # (if (case sd key l of None \<Rightarrow> [] | Some s \<Rightarrow> s) \<noteq> []
                   then [replicate (nat (2 + trunc_log10 e n)) (CHR '' '')
                         @ (case sd key l of None \<Rightarrow> [] | Some s \<Rightarrow> s)]
                   else [])"
      using assms(4) by (auto simp: colorize_plain)
    have t: "\<exists>rest. first_line e md n l fs = str_int n @ '' '' @ l @ rest"
      unfolding first_line_def join_two by simp
    show "\<exists>rest.
                  group_out e md n (cd key) (sd key) l
                  = (str_int n @ '' '' @ l @ rest)
                    # (case sd key l of
                         None \<Rightarrow> []
                       | Some sq \<Rightarrow>
                           if sq = [] then []
                           else [replicate (nat (2 + trunc_log10 e n)) (CHR '' '') @ sq])"
      using t unfolding c by (cases "sd key l") auto
  qed
  show "\<exists>shown cd sd.
            (\<forall>key. selected e (?ts key) = Inr (shown key, cd key, sd key))
            \<and> get_line e md n
               = Inr (concat (map (group_out e md n (cd MINUS) (sd MINUS)) (shown MINUS))
                      @ concat (map (group_out e md n (cd PLUS) (sd PLUS)) (shown PLUS))
                      @ sep_of md n)
            \<and> (\<forall>key. \<forall>l\<in>set (shown key). \<exists>rest.
                  group_out e md n (cd key) (sd key) l
                  = (str_int n @ '' '' @ l @ rest)
                    # (case sd key l of
                         None \<Rightarrow> []
                       | Some sq \<Rightarrow>
                           if sq = [] then []
                           else [replicate (nat (2 + trunc_log10 e n)) (CHR '' '') @ sq]))"
    by (rule exI [of _ shown], rule exI [of _ cd], rule exI [of _ sd]) (intro conjI g1 g2 r)
next
  show "1 \<le> n \<and> trunc_log10 e n = exact_log10 n \<longrightarrow>
          nat (2 + trunc_log10 e n) = 1 + length (str_int n)"
  proof
    assume a: "1 \<le> n \<and> trunc_log10 e n = exact_log10 n"
    then have "length (str_int n) = Suc (ilog10 (nat n))" by (simp add: length_str_int)
    moreover have "nat (2 + int (ilog10 (nat n))) = 2 + ilog10 (nat n)" by linarith
    ultimately show "nat (2 + trunc_log10 e n) = 1 + length (str_int n)"
      using a by (simp add: exact_log10_def)
  qed
qed

theorem squigly_line_padding_witness:
  "order_ok example_env \<and> wf_info squigly_md \<and> pos_info squigly_md \<and> \<not> colored squigly_md
   \<and> trunc_log10 example_env 12 = exact_log10 12
   \<and> nat (2 + trunc_log10 example_env 12) = 3 \<and> length (str_int 12) = 2
   \<and> (\<exists>shown cd sd.
         (\<forall>key. selected example_env (tuples_of (get_dict squigly_md 12) key)
                  = Inr (shown key, cd key, sd key))
         \<and> get_line example_env squigly_md 12
            = Inr (concat (map (group_out example_env squigly_md 12 (cd MINUS) (sd MINUS))
                             (shown MINUS))
                   @ concat (map (group_out example_env squigly_md 12 (cd PLUS) (sd PLUS))
                               (shown PLUS))
                   @ sep_of squigly_md 12))
   \<and> get_line example_env squigly_md 12
      = Inr [''12 - abcd (1/1)'', ''   ?   ^'', ''12 + abxd (1/1)'', ''   ?   ^'',
             '' '', ''-----'', '' '']"
proof -
  have x: "trunc_log10 example_env 12 = exact_log10 12" by (simp add: example_env_def)
  have d: "length (str_int 12) = 2" by code_simp
  have g: "get_line example_env squigly_md 12
      = Inr [''12 - abcd (1/1)'', ''   ?   ^'', ''12 + abxd (1/1)'', ''   ?   ^'',
             '' '', ''-----'', '' '']"
    by code_simp
  note th = squigly_line_padding [OF order_ok_example wf_pos_squigly_md plain_squigly_md, of 12]
  have n: "nat (2 + trunc_log10 example_env 12) = 3" using th x d by simp
  from th obtain shown cd sd where
    s1: "\<forall>key. selected example_env (tuples_of (get_dict squigly_md 12) key)
                  = Inr (shown key, cd key, sd key)" and
    s2: "get_line example_env squigly_md 12
            = Inr (concat (map (group_out example_env squigly_md 12 (cd MINUS) (sd MINUS))
                             (shown MINUS))
                   @ concat (map (group_out example_env squigly_md 12 (cd PLUS) (sd PLUS))
                               (shown PLUS))
                   @ sep_of squigly_md 12)"
    by (elim exE conjE)
  have "\<exists>shown cd sd.
         (\<forall>key. selected example_env (tuples_of (get_dict squigly_md 12) key)
                  = Inr (shown key, cd key, sd key))
         \<and> get_line example_env squigly_md 12
            = Inr (concat (map (group_out example_env squigly_md 12 (cd MINUS) (sd MINUS))
                             (shown MINUS))
                   @ concat (map (group_out example_env squigly_md 12 (cd PLUS) (sd PLUS))
                               (shown PLUS))
                   @ sep_of squigly_md 12)"
    by (rule exI [of _ shown], rule exI [of _ cd], rule exI [of _ sd]) (intro conjI s1 s2)
  then show ?thesis
    by (intro conjI order_ok_example wf_pos_squigly_md plain_squigly_md x n d g)
qed

text \<open>
  The claim as the specification has it fails: at line 1, which has one digit, the squigly
  lines stand behind two blanks, not three.
\<close>

theorem padding_is_not_two_plus_digits:
  "multidiff_line example_env ''base'' [''abxd'']
     [(''f'', [''- abcd'', ''?   ^'' @ [CHR 0x0A], ''+ abxd'', ''?   ^'' @ [CHR 0x0A]])] False 1
   = Inr [''1 - abcd (1/1)'', replicate 2 (CHR '' '') @ ''?   ^'',
          ''1 + abxd (1/1)'', replicate 2 (CHR '' '') @ ''?   ^'', '' '', ''-----'', '' '']
   \<and> 2 + length (str_int 1) = 3"
  by code_simp


section \<open>The report and the terminal width\<close>

lemma fold_str_step_blocks:
  assumes "\<forall>n. \<exists>out. get_line e md n = Inr out"
  shows "fold_err (str_step e md) is (out, d)
         = Inr (out @ concat (map (block e md) is), d \<or> concat (map (block e md) is) \<noteq> [])"
proof (induction "is" arbitrary: out d)
  case Nil
  then show ?case by simp
next
  case (Cons i "is")
  obtain ls where ls: "get_line e md (int i) = Inr ls" using assms by blast
  show ?case
  proof (cases "filter (\<lambda>l. l \<noteq> []) ls = []")
    case True
    then have "str_step e md i (out, d) = Inr (out, d)" "block e md i = []"
      using ls by (simp_all add: str_step_def block_def Let_def)
    then show ?thesis using Cons [of out d] by simp
  next
    case False
    let ?b = "join [CHR 0x0A] (map (\<lambda>line. limit (colored md) line (term_width e))
                                 (filter (\<lambda>l. l \<noteq> []) ls))"
    have "str_step e md i (out, d) = Inr (out @ [?b], True)" "block e md i = [?b]"
      using ls False by (simp_all add: str_step_def block_def Let_def)
    then show ?thesis using Cons [of "out @ [?b]" True] by simp
  qed
qed

lemma to_str_blocks:
  assumes "\<forall>n. \<exists>out. get_line e md n = Inr out"
  shows "to_str e md
         = Inr (join [CHR 0x0A]
                  ([header_line md, rule_line] @ blocks e md
                   @ (if blocks e md = [] then [''(no diff)''] else []) @ [rule_line]))"
  using fold_str_step_blocks [OF assms, of "[0..<length (base_lines md)]"
      "[header_line md, rule_line]" False]
  by (simp add: to_str_def Let_def header_line_def rule_line_def blocks_def del: join.simps)

lemma order_ok_narrow: "order_ok narrow_env"
  by (simp add: order_ok_def narrow_env_def example_env_def)

lemma pos_example_md: "pos_info example_md"
  by (simp add: example_md_def pos_info_register pos_info_init)

text \<open>
  C6, as the code has it. On a multi-diff as \<^verbatim>\<open>multidiff\<close> builds it, the report is the
  header, a rule, the blocks of the base lines, the marker \<open>(no diff)\<close> when there is no
  block, and a rule. Only the lines of the blocks are limited to the terminal width; the
  header, the marker and the rules are emitted as they are. A block line no longer than
  the width is left as it is. A block line longer than a width of at least 3 is cut to its
  first \<open>width - 3\<close> characters, the reset escape is appended in color mode, then the marker
  \<open>...\<close>; the cut text and the marker together have \<open>width\<close> characters.
\<close>

theorem block_lines_cut_to_width:
  assumes "order_ok e" and "wf_info md" and "pos_info md"
  shows "to_str e md
         = Inr (join [CHR 0x0A]
                  ([header_line md, rule_line] @ blocks e md
                   @ (if blocks e md = [] then [''(no diff)''] else []) @ [rule_line]))
     \<and> (\<exists>ls. get_line e md (int i) = Inr ls
           \<and> block e md i
              = (if filter (\<lambda>l. l \<noteq> []) ls = [] then []
                 else [join [CHR 0x0A]
                         (map (\<lambda>line. limit (colored md) line (term_width e))
                            (filter (\<lambda>l. l \<noteq> []) ls))]))
     \<and> (int (length text) \<le> w \<longrightarrow> limit col text w = text)
     \<and> (3 \<le> w \<and> w < int (length text) \<longrightarrow>
          limit col text w
            = take (nat (w - 3)) text @ (if col then END_COLOR else []) @ END_LONG_LINE
          \<and> int (length (take (nat (w - 3)) text @ END_LONG_LINE)) = w)"
proof (intro conjI impI)
  have a: "\<forall>n. \<exists>out. get_line e md n = Inr out" using get_line_ok [OF assms] by blast
  show "to_str e md
         = Inr (join [CHR 0x0A]
                  ([header_line md, rule_line] @ blocks e md
                   @ (if blocks e md = [] then [''(no diff)''] else []) @ [rule_line]))"
    using a by (rule to_str_blocks)
  obtain ls where ls: "get_line e md (int i) = Inr ls" using a by blast
  then have "block e md i
              = (if filter (\<lambda>l. l \<noteq> []) ls = [] then []
                 else [join [CHR 0x0A]
                         (map (\<lambda>line. limit (colored md) line (term_width e))
                            (filter (\<lambda>l. l \<noteq> []) ls))])"
    by (simp add: block_def)
  then show "\<exists>ls. get_line e md (int i) = Inr ls
           \<and> block e md i
              = (if filter (\<lambda>l. l \<noteq> []) ls = [] then []
                 else [join [CHR 0x0A]
                         (map (\<lambda>line. limit (colored md) line (term_width e))
                            (filter (\<lambda>l. l \<noteq> []) ls))])"
    using ls by blast
next
  assume "int (length text) \<le> w"
  then show "limit col text w = text" by (rule limit_short)
next
  assume "3 \<le> w \<and> w < int (length text)"
  then show "limit col text w
      = take (nat (w - 3)) text @ (if col then END_COLOR else []) @ END_LONG_LINE"
    by (simp add: limit_long)
next
  assume a: "3 \<le> w \<and> w < int (length text)"
  then have "min (length text) (nat (w - 3)) = nat (w - 3)" by linarith
  then show "int (length (take (nat (w - 3)) text @ END_LONG_LINE)) = w"
    using a by (simp add: END_LONG_LINE_def)
qed

theorem block_lines_cut_to_width_witness:
  "order_ok narrow_env \<and> wf_info example_md \<and> pos_info example_md
   \<and> term_width narrow_env = 8
   \<and> get_line narrow_env example_md 3 = Inr [''3 + c (1/1)'', '' '', ''-----'', '' '']
   \<and> block narrow_env example_md 3
      = [''3 + c...'' @ [CHR 0x0A] @ '' '' @ [CHR 0x0A] @ ''-----'' @ [CHR 0x0A] @ '' '']
   \<and> limit False ''3 + c (1/1)'' 8 = ''3 + c...'' \<and> limit False ''-----'' 8 = ''-----''
   \<and> to_str narrow_env example_md
      = Inr (join [CHR 0x0A]
               ([header_line example_md, rule_line] @ blocks narrow_env example_md @ [rule_line]))
   \<and> to_str narrow_env example_md
      = Inr (''Comparing base with f'' @ [CHR 0x0A] @ ''====='' @ [CHR 0x0A]
             @ ''2 - x...'' @ [CHR 0x0A] @ ''2 + b...'' @ [CHR 0x0A]
             @ ''3 + c...'' @ [CHR 0x0A] @ '' '' @ [CHR 0x0A] @ ''-----'' @ [CHR 0x0A] @ '' ''
             @ [CHR 0x0A] @ ''====='')"
proof -
  have w: "term_width narrow_env = 8" by (simp add: narrow_env_def)
  have g: "get_line narrow_env example_md 3 = Inr [''3 + c (1/1)'', '' '', ''-----'', '' '']"
    by code_simp
  have b: "blocks narrow_env example_md \<noteq> []" by code_simp
  have t: "to_str narrow_env example_md
      = Inr (''Comparing base with f'' @ [CHR 0x0A] @ ''====='' @ [CHR 0x0A]
             @ ''2 - x...'' @ [CHR 0x0A] @ ''2 + b...'' @ [CHR 0x0A]
             @ ''3 + c...'' @ [CHR 0x0A] @ '' '' @ [CHR 0x0A] @ ''-----'' @ [CHR 0x0A] @ '' ''
             @ [CHR 0x0A] @ ''====='')"
    by code_simp
  have c: "\<not> colored example_md" by (simp add: example_md_def register_fields init_def)
  note th = block_lines_cut_to_width [OF order_ok_narrow wf_example_md pos_example_md]
  have l1: "limit False ''3 + c (1/1)'' 8 = ''3 + c...''"
    using th [of 3 "''3 + c (1/1)''" 8 False] by (simp add: END_LONG_LINE_def)
  have l2: "limit False ''-----'' 8 = ''-----''"
    using th [of 3 "''-----''" 8 False] by simp
  have l3: "limit False '' '' 8 = '' ''"
    using th [of 3 "'' ''" 8 False] by simp
  have bl: "block narrow_env example_md 3
      = [''3 + c...'' @ [CHR 0x0A] @ '' '' @ [CHR 0x0A] @ ''-----'' @ [CHR 0x0A] @ '' '']"
    using th [of 3 "[]" 0 False] g c w l1 l2 l3 by simp
  have ts: "to_str narrow_env example_md
      = Inr (join [CHR 0x0A]
               ([header_line example_md, rule_line] @ blocks narrow_env example_md @ [rule_line]))"
    using th [of 3 "[]" 0 False] b by (simp del: join.simps)
  show ?thesis
    by (intro conjI order_ok_narrow wf_example_md pos_example_md w g bl l1 l2 ts t)
qed

text \<open>
  The claim as the specification has it fails: on a terminal of 8 columns the header of 21
  characters is emitted whole, next to block lines cut to 8. Below a width of 3 the cut
  counts from the end of the line: at width 2 a line of 6 characters comes out with 8.
\<close>

theorem header_wider_than_terminal:
  "multidiff narrow_env ''base'' [''a'', ''b'', ''c'']
     [(''f'', [''  a'', ''- x'', ''+ b'', ''  c''])] False
   = Inr (''Comparing base with f'' @ [CHR 0x0A] @ ''====='' @ [CHR 0x0A]
          @ ''2 - x...'' @ [CHR 0x0A] @ ''2 + b...'' @ [CHR 0x0A]
          @ '' '' @ [CHR 0x0A] @ ''-----'' @ [CHR 0x0A] @ '' '' @ [CHR 0x0A] @ ''====='')
   \<and> term_width narrow_env = 8 \<and> length ''Comparing base with f'' = 21
   \<and> limit False ''abcdef'' 2 = ''abcde...'' \<and> length ''abcde...'' = 8"
  by code_simp

end
